theory Spec2Isabelle
  imports Main "HOL-Library.Word"
begin

unbundle bit_operations_syntax

section \<open>Rotary encoder module firmware: data model\<close>

text \<open>
  The firmware is one Arduino sketch, \<^verbatim>\<open>RotaryEncoderModule.ino\<close>, for a 32-bit ARM
  board (Teensy 3.5): \<^verbatim>\<open>int\<close> is 32 bits wide, \<^verbatim>\<open>byte\<close> is 8 bits and unsigned.
  Fixed-width integers are words, so that \<open>+\<close> and \<open>-\<close> wrap around; where the C code
  compares two \<^verbatim>\<open>int16_t\<close> values they are promoted to \<^verbatim>\<open>int\<close>, which is \<open>sint\<close> here.
\<close>

type_synonym byte = "8 word"
type_synonym int16 = "16 word"
type_synonym uint32 = "32 word"

text \<open>Constants of the sketch.\<close>

definition maxThresholds :: byte where
  "maxThresholds = 8"

definition dataMax :: uint32 where
  "dataMax = 4294967295"

definition sdReadBufferSize :: uint32 where
  "sdReadBufferSize = 2048"

definition positionBufferSize :: nat where
  "positionBufferSize = 1024"

definition usbStreamingBufferSize :: nat where
  "usbStreamingBufferSize = 1000"

definition FirmwareVersion :: uint32 where
  "FirmwareVersion = 5"

definition moduleName :: "byte list" where
  "moduleName = [82, 111, 116, 97, 114, 121, 69, 110, 99, 111, 100, 101, 114]"

text \<open>
  The global variables of the sketch, under their own names. Arrays are functions from
  the index; an array write of the sketch at a computed index is checked against the
  array's size in the model (a write outside is the fault \<open>OutOfBounds\<close>). The scratch
  variables
  \<^verbatim>\<open>typeBuffer\<close>, \<^verbatim>\<open>sdWriteBuffer\<close>, \<^verbatim>\<open>thisInd\<close>, \<^verbatim>\<open>nFullBufferReads\<close> and
  \<^verbatim>\<open>nRemainderBytes\<close> are always assigned before they are read and are local values
  of the model.

  The three serial ports are a pair of byte queues each: \<open>usbIn\<close>, \<open>smIn\<close>, \<open>osIn\<close> hold
  the bytes that have arrived and are not read yet; \<open>usbOut\<close>, \<open>smOut\<close>, \<open>osOut\<close> hold
  every byte written so far. \<open>DataFile\<close> is the content of the file on the microSD
  card and \<open>filePos\<close> its read/write position. \<open>currentTime\<close> is the microsecond
  counter (\<^verbatim>\<open>elapsedMicros\<close>), advanced by the environment.
\<close>

record state =
  moduleStreamPrefix :: byte
  outputStreamDatatype :: byte
  thresholds :: "nat \<Rightarrow> int16"
  thresholdActive :: "nat \<Rightarrow> bool"
  nThresholds :: byte
  wrapPoint :: int16
  nWraps :: uint32
  usbStreaming :: bool
  sendEvents :: bool
  isLogging :: bool
  moduleStreaming :: bool
  EncoderPos :: int16
  currentDir :: byte
  opCode :: byte
  opSource :: byte
  param :: byte
  newOp :: bool
  loggedDataAvailable :: bool
  wrappingEnabled :: bool
  wrapMode :: byte
  EncoderPinAValue :: bool
  LastEncoderPinAValue :: bool
  EncoderPinBValue :: bool
  dataPos :: uint32
  currentTime :: uint32
  wrapPointInverse :: int16
  sdReadBuffer :: "nat \<Rightarrow> byte"
  positionBuffer :: "nat \<Rightarrow> nat \<Rightarrow> int16"
  timeBuffer :: "nat \<Rightarrow> nat \<Rightarrow> uint32"
  iPositionBuffer :: "nat \<Rightarrow> uint32"
  positionBufferFlag :: bool
  currentPositionBuffer :: byte
  thisPositionBuffer :: byte
  newEventType :: byte
  newEventCode :: byte
  newEventTime :: uint32
  newEvent :: bool
  usbStreamingBufferPos :: uint32
  usbStreamingBuffer :: "nat \<Rightarrow> byte"
  nPositions :: uint32
  DataFile :: "byte list"
  filePos :: nat
  usbIn :: "byte list"
  smIn :: "byte list"
  osIn :: "byte list"
  usbOut :: "byte list"
  smOut :: "byte list"
  osOut :: "byte list"

text \<open>
  What stops a piece of code from returning a state: a serial read that waits for a
  byte that has not arrived (the state reached so far is kept, so that one can see what
  had been written before the wait), an array write outside the array, and the end of
  \<^verbatim>\<open>readByteFromSource\<close> reached without a \<^verbatim>\<open>return\<close>.
\<close>

datatype fault = Blocked state | OutOfBounds | NoReturn

definition bind_res :: "fault + 'a \<Rightarrow> ('a \<Rightarrow> fault + 'b) \<Rightarrow> fault + 'b" where
  "bind_res m f = (case m of Inl e \<Rightarrow> Inl e | Inr x \<Rightarrow> f x)"

section \<open>Interrupt handler: quadrature decoder and wrap processing\<close>

text \<open>The \<^verbatim>\<open>if (wrappingEnabled) { switch (wrapMode) ... }\<close> block of \<^verbatim>\<open>processPosition\<close>.\<close>

definition wrapPosition :: "state \<Rightarrow> state" where
  "wrapPosition s =
     (if wrappingEnabled s then
        (if wrapMode s = 0 then
           (if sint (EncoderPos s) \<le> sint (wrapPointInverse s)
            then s\<lparr>EncoderPos := wrapPoint s, nWraps := nWraps s - 1\<rparr>
            else if sint (wrapPoint s) \<le> sint (EncoderPos s)
            then s\<lparr>EncoderPos := wrapPointInverse s, nWraps := nWraps s + 1\<rparr>
            else s)
         else if wrapMode s = 1 then
           (if sint (wrapPoint s) < sint (EncoderPos s)
            then s\<lparr>EncoderPos := 0, nWraps := nWraps s + 1\<rparr>
            else if sint (EncoderPos s) < 0
            then s\<lparr>EncoderPos := wrapPoint s, nWraps := nWraps s - 1\<rparr>
            else s)
         else s)
      else s)"

text \<open>
  The rest of \<^verbatim>\<open>processPosition\<close>: the sample is stored at the next free slot of the
  half of the double buffer that is the current write target.
\<close>

definition commitSample :: "state \<Rightarrow> fault + state" where
  "commitSample s =
     (let c = unat (currentPositionBuffer s);
          thisInd = unat (iPositionBuffer s c)
      in if 2 \<le> c \<or> positionBufferSize \<le> thisInd then Inl OutOfBounds
         else Inr (s\<lparr>positionBuffer := (positionBuffer s)(thisInd := (positionBuffer s thisInd)(c := EncoderPos s)),
                     timeBuffer := (timeBuffer s)(thisInd := (timeBuffer s thisInd)(c := currentTime s)),
                     iPositionBuffer := (iPositionBuffer s)(c := iPositionBuffer s c + 1),
                     positionBufferFlag := True\<rparr>))"

definition processPosition :: "state \<Rightarrow> fault + state" where
  "processPosition s = commitSample (wrapPosition s)"

text \<open>
  \<^verbatim>\<open>updatePosition\<close>, run on every change of pin A; \<open>a\<close> and \<open>b\<close> are the levels read
  from pins A and B.
\<close>

definition updatePosition :: "bool \<Rightarrow> bool \<Rightarrow> state \<Rightarrow> fault + state" where
  "updatePosition a b s =
     (let s0 = s\<lparr>EncoderPinAValue := a, EncoderPinBValue := b\<rparr>
      in bind_res
           (if a \<and> \<not> LastEncoderPinAValue s0 then
              (if b then
                 bind_res
                   (if currentDir s0 = 0
                    then processPosition (s0\<lparr>EncoderPos := EncoderPos s0 + 1\<rparr>)
                    else Inr s0)
                   (\<lambda>s1. Inr (s1\<lparr>currentDir := 0\<rparr>))
               else Inr (s0\<lparr>currentDir := 1\<rparr>))
            else
              (if b then
                 bind_res
                   (if currentDir s0 = 1
                    then processPosition (s0\<lparr>EncoderPos := EncoderPos s0 - 1\<rparr>)
                    else Inr s0)
                   (\<lambda>s1. Inr (s1\<lparr>currentDir := 1\<rparr>))
               else Inr (s0\<lparr>currentDir := 0\<rparr>)))
           (\<lambda>s2. Inr (s2\<lparr>LastEncoderPinAValue := EncoderPinAValue s2\<rparr>)))"

section \<open>Serial ports and the file on the card\<close>

datatype port = myUSB | StateMachineCOM | OutputStreamCOM

definition inQueue :: "port \<Rightarrow> state \<Rightarrow> byte list" where
  "inQueue p s = (case p of myUSB \<Rightarrow> usbIn s | StateMachineCOM \<Rightarrow> smIn s | OutputStreamCOM \<Rightarrow> osIn s)"

definition setInQueue :: "port \<Rightarrow> byte list \<Rightarrow> state \<Rightarrow> state" where
  "setInQueue p q s =
     (case p of myUSB \<Rightarrow> s\<lparr>usbIn := q\<rparr> | StateMachineCOM \<Rightarrow> s\<lparr>smIn := q\<rparr> | OutputStreamCOM \<Rightarrow> s\<lparr>osIn := q\<rparr>)"

text \<open>
  Modelled from the spec: the ArCOM serial wrapper (\<^verbatim>\<open>ArCOM.h\<close>) is not part of the
  sources. The spec describes the transport as blocking byte and array reads and
  writes, and every multi-byte value on the wire as little-endian.
\<close>

definition readByte :: "port \<Rightarrow> state \<Rightarrow> fault + (byte \<times> state)" where
  "readByte p s = (case inQueue p s of [] \<Rightarrow> Inl (Blocked s) | x # xs \<Rightarrow> Inr (x, setInQueue p xs s))"

definition int16OfBytes :: "byte \<Rightarrow> byte \<Rightarrow> int16" where
  "int16OfBytes lo hi = push_bit 8 (ucast hi) OR ucast lo"

definition readInt16 :: "port \<Rightarrow> state \<Rightarrow> fault + (int16 \<times> state)" where
  "readInt16 p s =
     bind_res (readByte p s) (\<lambda>(lo, s1).
     bind_res (readByte p s1) (\<lambda>(hi, s2).
       Inr (int16OfBytes lo hi, s2)))"

definition writeByteArray :: "port \<Rightarrow> byte list \<Rightarrow> state \<Rightarrow> state" where
  "writeByteArray p bs s =
     (case p of myUSB \<Rightarrow> s\<lparr>usbOut := usbOut s @ bs\<rparr>
      | StateMachineCOM \<Rightarrow> s\<lparr>smOut := smOut s @ bs\<rparr>
      | OutputStreamCOM \<Rightarrow> s\<lparr>osOut := osOut s @ bs\<rparr>)"

definition writeByte :: "port \<Rightarrow> byte \<Rightarrow> state \<Rightarrow> state" where
  "writeByte p b s = writeByteArray p [b] s"

definition le16 :: "int16 \<Rightarrow> byte list" where
  "le16 w = [ucast w, ucast (drop_bit 8 w)]"

definition le32 :: "uint32 \<Rightarrow> byte list" where
  "le32 w = [ucast w, ucast (drop_bit 8 w), ucast (drop_bit 16 w), ucast (drop_bit 24 w)]"

definition writeInt16 :: "port \<Rightarrow> int16 \<Rightarrow> state \<Rightarrow> state" where
  "writeInt16 p w s = writeByteArray p (le16 w) s"

definition writeUint16 :: "port \<Rightarrow> int16 \<Rightarrow> state \<Rightarrow> state" where
  "writeUint16 p w s = writeByteArray p (le16 w) s"

definition writeUint32 :: "port \<Rightarrow> uint32 \<Rightarrow> state \<Rightarrow> state" where
  "writeUint32 p w s = writeByteArray p (le32 w) s"

text \<open>\<^verbatim>\<open>readByteFromSource\<close>: a \<^verbatim>\<open>switch\<close> over 0, 1 and 2 with no default.\<close>

definition readByteFromSource :: "byte \<Rightarrow> state \<Rightarrow> fault + (byte \<times> state)" where
  "readByteFromSource src s =
     (if src = 0 then readByte myUSB s
      else if src = 1 then readByte StateMachineCOM s
      else if src = 2 then readByte OutputStreamCOM s
      else Inl NoReturn)"

text \<open>
  Modelled from the spec: the SdFat file object (\<^verbatim>\<open>SdFat.h\<close>) is not part of the sources.
  The spec describes the log as a raw concatenation of records that is repositioned to
  its start, appended to, and replayed byte for byte. A write stores the bytes at the
  file position, over what was there, and moves the position behind them; a read
  copies the bytes that are there (at most the number asked for) to the front of
  \<^verbatim>\<open>sdReadBuffer\<close>.
\<close>

definition fileSeek0 :: "state \<Rightarrow> state" where
  "fileSeek0 s = s\<lparr>filePos := 0\<rparr>"

definition fileWrite :: "byte list \<Rightarrow> state \<Rightarrow> state" where
  "fileWrite bs s =
     s\<lparr>DataFile := take (filePos s) (DataFile s) @ bs @ drop (filePos s + length bs) (DataFile s),
       filePos := filePos s + length bs\<rparr>"

definition fileRead :: "nat \<Rightarrow> state \<Rightarrow> state" where
  "fileRead n s =
     (let chunk = take n (drop (filePos s) (DataFile s))
      in s\<lparr>sdReadBuffer := (\<lambda>i. if i < length chunk then chunk ! i else sdReadBuffer s i),
           filePos := filePos s + length chunk\<rparr>)"

section \<open>Session log\<close>

text \<open>
  The samples of the batch drained last: \<^verbatim>\<open>positionBuffer[i][thisPositionBuffer]\<close> and
  \<^verbatim>\<open>timeBuffer[i][thisPositionBuffer]\<close> for \<^verbatim>\<open>i < nPositions\<close>.
\<close>

definition batch :: "state \<Rightarrow> (int16 \<times> uint32) list" where
  "batch s = map (\<lambda>i. (positionBuffer s i (unat (thisPositionBuffer s)),
                         timeBuffer s i (unat (thisPositionBuffer s))))
                 [0..<unat (nPositions s)]"

definition startLogging :: "state \<Rightarrow> state" where
  "startLogging s =
     (fileSeek0 s)\<lparr>dataPos := 0, currentTime := 0, isLogging := True,
                   iPositionBuffer := ((iPositionBuffer s)(0 := 0))(1 := 0)\<rparr>"

text \<open>
  One record: the position widened to 32 bits (the conversion of an \<^verbatim>\<open>int16_t\<close> to
  \<^verbatim>\<open>uint32_t\<close> extends the sign), then the time.
\<close>

definition logRecord :: "int16 \<times> uint32 \<Rightarrow> byte list" where
  "logRecord x = le32 (scast (fst x)) @ le32 (snd x)"

fun writeRecords :: "(int16 \<times> uint32) list \<Rightarrow> state \<Rightarrow> state" where
  "writeRecords [] s = s"
| "writeRecords (x # xs) s = writeRecords xs ((fileWrite (logRecord x) s)\<lparr>dataPos := dataPos s + 1\<rparr>)"

definition logCurrentPosition :: "state \<Rightarrow> state" where
  "logCurrentPosition s = (if 0 < nPositions s then writeRecords (batch s) s else s)"

definition resetDataStreams :: "state \<Rightarrow> state" where
  "resetDataStreams s =
     s\<lparr>usbStreaming := False, isLogging := False, dataPos := 0, EncoderPos := 0, nWraps := 0,
       iPositionBuffer := ((iPositionBuffer s)(0 := 0))(1 := 0)\<rparr>"

definition returnModuleInfo :: "state \<Rightarrow> state" where
  "returnModuleInfo s =
     writeByte StateMachineCOM 0
       (writeByteArray StateMachineCOM moduleName
          (writeByte StateMachineCOM (of_nat (length moduleName))
             (writeUint32 StateMachineCOM FirmwareVersion
                (writeByte StateMachineCOM 65 s))))"


section \<open>Main loop, first half: one opcode\<close>

text \<open>
  The seven bytes that \<^verbatim>\<open>'#'\<close> and \<^verbatim>\<open>'Z'\<close> put at the front of \<^verbatim>\<open>usbStreamingBuffer\<close>
  (constant indices 0 to 6) and send to the host.
\<close>

definition put7 :: "byte list \<Rightarrow> state \<Rightarrow> state" where
  "put7 bs s =
     writeByteArray myUSB bs
       (s\<lparr>usbStreamingBuffer := (\<lambda>i. if i < 7 then bs ! i else usbStreamingBuffer s i)\<rparr>)"

definition op_S :: "state \<Rightarrow> fault + state" where
  "op_S s =
     (if opSource s = 0 then
        bind_res (readByte myUSB s) (\<lambda>(b, s1).
          let s2 = s1\<lparr>usbStreaming := (b \<noteq> 0)\<rparr>
          in Inr (if usbStreaming s2 then s2\<lparr>EncoderPos := 0, nWraps := 0, currentTime := 0\<rparr> else s2))
      else Inr s)"

definition op_O :: "state \<Rightarrow> fault + state" where
  "op_O s =
     bind_res (readByteFromSource (opSource s) s) (\<lambda>(b, s1).
       let s2 = s1\<lparr>moduleStreaming := (b \<noteq> 0)\<rparr>
       in Inr (if opSource s2 = 0 then writeByte myUSB 1 s2 else s2))"

definition op_V :: "state \<Rightarrow> fault + state" where
  "op_V s =
     (if opSource s = 0 then
        bind_res (readByte myUSB s) (\<lambda>(b, s1). Inr (writeByte myUSB 1 (s1\<lparr>sendEvents := (b \<noteq> 0)\<rparr>)))
      else Inr s)"

definition op_event :: "state \<Rightarrow> fault + state" where
  "op_event s =
     (if opSource s = 1 then
        bind_res (readByte StateMachineCOM s) (\<lambda>(b, s1).
          let s2 = s1\<lparr>newEventCode := b, newEventTime := currentTime s1, newEventType := 0\<rparr>;
              s3 = (if usbStreaming s2
                    then put7 ([69, newEventType s2, newEventCode s2] @ le32 (newEventTime s2)) s2
                    else s2)
          in Inr (s3\<lparr>newEvent := True\<rparr>))
      else Inr s)"

definition op_W :: "state \<Rightarrow> fault + state" where
  "op_W s =
     (if opSource s = 0 then
        bind_res (readInt16 myUSB s) (\<lambda>(w, s1).
          let s2 = writeByte myUSB 1 (s1\<lparr>wrapPoint := w\<rparr>);
              s3 = s2\<lparr>wrappingEnabled := (wrapPoint s2 \<noteq> 0)\<rparr>;
              s4 = s3\<lparr>wrapPointInverse := - wrapPoint s3, nWraps := 0\<rparr>
          in Inr (if sint (wrapPoint s4) < sint (EncoderPos s4) \<or> sint (EncoderPos s4) < sint (wrapPointInverse s4)
                  then s4\<lparr>EncoderPos := wrapPoint s4\<rparr> else s4))
      else Inr s)"

definition op_M :: "state \<Rightarrow> fault + state" where
  "op_M s =
     (if opSource s = 0 then
        bind_res (readByte myUSB s) (\<lambda>(b, s1). Inr (writeByte myUSB 1 (s1\<lparr>wrapMode := b\<rparr>)))
      else Inr s)"

text \<open>The loop of \<^verbatim>\<open>'T'\<close>: \<open>readThresholds i k\<close> reads \<open>k\<close> values into slots \<open>i, i + 1, ...\<close>.\<close>

fun readThresholds :: "nat \<Rightarrow> nat \<Rightarrow> state \<Rightarrow> fault + state" where
  "readThresholds i 0 s = Inr s"
| "readThresholds i (Suc k) s =
     bind_res (readInt16 myUSB s) (\<lambda>(v, s1).
       readThresholds (Suc i) k (s1\<lparr>thresholds := (thresholds s1)(i := v)\<rparr>))"

definition op_T :: "state \<Rightarrow> fault + state" where
  "op_T s =
     (if opSource s = 0 then
        bind_res (readByte myUSB s) (\<lambda>(b, s1).
          let s2 = s1\<lparr>param := b\<rparr>
          in if param s2 \<le> maxThresholds then
               bind_res (readThresholds 0 (unat (param s2)) (s2\<lparr>nThresholds := param s2\<rparr>))
                 (\<lambda>s3. Inr (writeByte myUSB 1 s3))
             else Inr (writeByte myUSB 0 s2))
      else Inr s)"

definition op_I :: "state \<Rightarrow> fault + state" where
  "op_I s =
     (if opSource s = 0 then
        bind_res (readByte myUSB s) (\<lambda>(b, s1). Inr (writeByte myUSB 1 (s1\<lparr>moduleStreamPrefix := b\<rparr>)))
      else Inr s)"

text \<open>
  \<^verbatim>\<open>';'\<close> and \<^verbatim>\<open>'E'\<close> loop over \<^verbatim>\<open>i < nThresholds\<close>; \<^verbatim>\<open>bitRead(param, i)\<close> is bit \<open>i\<close> of the
  byte. (\<^verbatim>\<open>nThresholds\<close> is 8 at the start and only \<^verbatim>\<open>'T'\<close> assigns it, a value of at
  most 8, so the index stays inside the two arrays of 8.)
\<close>

definition op_semicolon :: "state \<Rightarrow> fault + state" where
  "op_semicolon s =
     bind_res (readByteFromSource (opSource s) s) (\<lambda>(b, s1).
       let s2 = s1\<lparr>param := b\<rparr>
       in Inr (s2\<lparr>thresholdActive :=
                    (\<lambda>i. if i < unat (nThresholds s2) then bit (param s2) i else thresholdActive s2 i),
                  nWraps := 0\<rparr>))"

definition op_Z :: "state \<Rightarrow> fault + state" where
  "op_Z s =
     (let s1 = s\<lparr>EncoderPos := 0, nWraps := 0\<rparr>
      in Inr (if usbStreaming s1
              then (let s2 = s1\<lparr>newEventTime := currentTime s1\<rparr>
                    in put7 ([80, 0, 0] @ le32 (newEventTime s2)) s2)
              else s1))"

definition op_E :: "state \<Rightarrow> fault + state" where
  "op_E s =
     Inr (s\<lparr>thresholdActive := (\<lambda>i. if i < unat (nThresholds s) then True else thresholdActive s i),
            nWraps := 0\<rparr>)"

definition op_F :: "state \<Rightarrow> fault + state" where
  "op_F s =
     (let s1 = (logCurrentPosition s)\<lparr>isLogging := False\<rparr>
      in Inr (if 0 < dataPos s1 then s1\<lparr>loggedDataAvailable := True\<rparr> else s1))"

text \<open>
  Read-back. \<^verbatim>\<open>nFullBufferReads\<close> is computed in \<^verbatim>\<open>double\<close>: the count is below \<open>2^32\<close>,
  so the product with 8, the quotient by 2048 and its floor are exact, and the result
  is the quotient of the natural numbers. The test before it and \<^verbatim>\<open>nRemainderBytes\<close>
  are computed in \<^verbatim>\<open>uint32_t\<close>.
\<close>

primrec fullReads :: "nat \<Rightarrow> state \<Rightarrow> state" where
  "fullReads 0 s = s"
| "fullReads (Suc k) s =
     fullReads k
       (let s1 = fileRead (unat sdReadBufferSize) s
        in writeByteArray myUSB (map (sdReadBuffer s1) [0..<unat sdReadBufferSize]) s1)"

definition op_R :: "state \<Rightarrow> fault + state" where
  "op_R s =
     (if opSource s = 0 then
        (let s1 = s\<lparr>isLogging := False\<rparr>
         in if loggedDataAvailable s1 then
              (let s2 = fileSeek0 (s1\<lparr>loggedDataAvailable := False\<rparr>);
                   nFullBufferReads =
                     (if sdReadBufferSize < dataPos s2 * 8
                      then (of_nat ((unat (dataPos s2) * 8) div unat sdReadBufferSize) :: uint32)
                      else 0);
                   s3 = writeUint32 myUSB (dataPos s2) s2;
                   s4 = fullReads (unat nFullBufferReads) s3;
                   nRemainderBytes = dataPos s4 * 8 - nFullBufferReads * sdReadBufferSize;
                   s5 = (if 0 < nRemainderBytes
                         then (let s6 = fileRead (unat nRemainderBytes) s4
                               in writeByteArray myUSB (map (sdReadBuffer s6) [0..<unat nRemainderBytes]) s6)
                         else s4)
               in Inr (s5\<lparr>dataPos := 0\<rparr>))
            else Inr (writeUint32 myUSB 0 s1))
      else Inr s)"

definition op_P :: "state \<Rightarrow> fault + state" where
  "op_P s =
     (if opSource s = 0 then
        bind_res (readInt16 myUSB s) (\<lambda>(v, s1). Inr (writeByte myUSB 1 (s1\<lparr>EncoderPos := v, nWraps := 0\<rparr>)))
      else Inr s)"

text \<open>The \<^verbatim>\<open>switch (opCode)\<close>; an opcode with no case does nothing.\<close>

definition dispatchOp :: "state \<Rightarrow> fault + state" where
  "dispatchOp s =
     (if opCode s = 255 then Inr (if opSource s = 1 then returnModuleInfo s else s)
      else if opCode s = 67 then Inr (if opSource s = 0 then writeByte myUSB 217 s else s)
      else if opCode s = 83 then op_S s
      else if opCode s = 79 then op_O s
      else if opCode s = 86 then op_V s
      else if opCode s = 35 then op_event s
      else if opCode s = 87 then op_W s
      else if opCode s = 77 then op_M s
      else if opCode s = 84 then op_T s
      else if opCode s = 73 then op_I s
      else if opCode s = 59 then op_semicolon s
      else if opCode s = 90 then op_Z s
      else if opCode s = 69 then op_E s
      else if opCode s = 76 then Inr (startLogging s)
      else if opCode s = 70 then op_F s
      else if opCode s = 82 then op_R s
      else if opCode s = 81 then Inr (if opSource s = 0 then writeInt16 myUSB (EncoderPos s) s else s)
      else if opCode s = 80 then op_P s
      else if opCode s = 88 then Inr (resetDataStreams s)
      else Inr s)"

text \<open>The poll of the three ports, in the order host, state machine, output stream.\<close>

definition pollStage :: "state \<Rightarrow> state" where
  "pollStage s =
     (case usbIn s of
        x # xs \<Rightarrow> s\<lparr>usbIn := xs, opCode := x, newOp := True, opSource := 0\<rparr>
      | [] \<Rightarrow>
        (case smIn s of
           x # xs \<Rightarrow> s\<lparr>smIn := xs, opCode := x, newOp := True, opSource := 1\<rparr>
         | [] \<Rightarrow>
           (case osIn s of
              x # xs \<Rightarrow> s\<lparr>osIn := xs, opCode := x, newOp := True, opSource := 2\<rparr>
            | [] \<Rightarrow> s)))"

definition cmdStage :: "state \<Rightarrow> fault + state" where
  "cmdStage s =
     (let s1 = pollStage s
      in if newOp s1 then dispatchOp (s1\<lparr>newOp := False\<rparr>) else Inr s1)"


section \<open>Main loop, second half: draining the double buffer\<close>

subsection \<open>Stream to the host\<close>

text \<open>
  The array writes of the encoder loop, in program order, as pairs of index and byte:
  seven per sample, the tag \<^verbatim>\<open>'P'\<close>, the two bytes of the position and the four bytes of
  the time. \<open>pos\<close> is \<^verbatim>\<open>usbStreamingBufferPos\<close> (a \<^verbatim>\<open>uint32_t\<close>; as a natural number here:
  the writes are performed by \<open>storeBytes\<close>, which stops at the first index outside
  the array, long before the counter could wrap).
\<close>

definition sampleWrites :: "nat \<Rightarrow> int16 \<times> uint32 \<Rightarrow> (nat \<times> byte) list" where
  "sampleWrites pos x =
     [(pos, 80),
      (pos + 1, le16 (fst x) ! 0), (pos + 1 + 1, le16 (fst x) ! 1),
      (pos + 3, le32 (snd x) ! 0), (pos + 3 + 1, le32 (snd x) ! 1),
      (pos + 3 + 2, le32 (snd x) ! 2), (pos + 3 + 3, le32 (snd x) ! 3)]"

fun streamWrites :: "nat \<Rightarrow> (int16 \<times> uint32) list \<Rightarrow> (nat \<times> byte) list" where
  "streamWrites pos [] = []"
| "streamWrites pos (x # xs) = sampleWrites pos x @ streamWrites (pos + 7) xs"

fun storeBytes :: "(nat \<times> byte) list \<Rightarrow> (nat \<Rightarrow> byte) \<Rightarrow> fault + (nat \<Rightarrow> byte)" where
  "storeBytes [] buf = Inr buf"
| "storeBytes (w # ws) buf =
     (if usbStreamingBufferSize \<le> fst w then Inl OutOfBounds
      else storeBytes ws (buf(fst w := snd w)))"

definition usbStreamStage :: "state \<Rightarrow> fault + state" where
  "usbStreamStage s =
     (if usbStreaming s then
        (if 0 < nPositions s then
           bind_res (storeBytes (streamWrites 0 (batch s)) (usbStreamingBuffer s)) (\<lambda>buf.
             let s1 = s\<lparr>usbStreamingBuffer := buf,
                        usbStreamingBufferPos := of_nat (7 * length (batch s))\<rparr>
             in Inr (writeByteArray myUSB
                       (map (usbStreamingBuffer s1) [0..<unat (usbStreamingBufferPos s1)]) s1))
         else Inr s)
      else Inr s)"

subsection \<open>Log and stream to the downstream module\<close>

definition logStage :: "state \<Rightarrow> state" where
  "logStage s = (if isLogging s then (if dataPos s < dataMax then logCurrentPosition s else s) else s)"

text \<open>
  \<^verbatim>\<open>typeBuffer.uint32 = positionBuffer[i][thisPositionBuffer] + wrapPoint\<close> adds two
  \<^verbatim>\<open>int16_t\<close> values as \<^verbatim>\<open>int\<close>; \<^verbatim>\<open>typeBuffer.uint16\<close> is the low half of the union.
\<close>

definition moduleRecord :: "state \<Rightarrow> int16 \<Rightarrow> byte list" where
  "moduleRecord s p =
     (let v = (if wrapMode s = 0 then scast p + scast (wrapPoint s) else scast p) :: uint32
      in [moduleStreamPrefix s] @
         (if outputStreamDatatype s = 72 then le16 (ucast v)
          else if outputStreamDatatype s = 76 then le32 v
          else []))"

definition moduleStreamStage :: "state \<Rightarrow> state" where
  "moduleStreamStage s =
     (if moduleStreaming s
      then writeByteArray OutputStreamCOM (concat (map (moduleRecord s) (map fst (batch s)))) s
      else s)"

subsection \<open>Threshold detector\<close>

text \<open>
  The inner loop over the samples of the batch, for one threshold: \<open>crossed\<close> is the
  comparison with the threshold's value, \<open>ev\<close> the byte to send, and the pair is the
  threshold's flag and the bytes sent by the loop so far.
\<close>

fun scanSamples :: "(int16 \<Rightarrow> bool) \<Rightarrow> byte \<Rightarrow> int16 list \<Rightarrow> bool \<times> byte list \<Rightarrow> bool \<times> byte list" where
  "scanSamples crossed ev [] r = r"
| "scanSamples crossed ev (p # ps) r =
     scanSamples crossed ev ps (if fst r \<and> crossed p then (False, snd r @ [ev]) else r)"

text \<open>The body of the outer loop, for threshold \<open>i\<close>.\<close>

definition checkThreshold :: "nat \<Rightarrow> state \<Rightarrow> state" where
  "checkThreshold i s =
     (if thresholdActive s i then
        (let crossed = (if sint (thresholds s i) < 0
                        then (\<lambda>p. sint p \<le> sint (thresholds s i))
                        else (\<lambda>p. sint (thresholds s i) \<le> sint p));
             r = scanSamples crossed (of_nat (i + 1)) (map fst (batch s)) (thresholdActive s i, [])
         in writeByteArray StateMachineCOM (snd r) (s\<lparr>thresholdActive := (thresholdActive s)(i := fst r)\<rparr>))
      else s)"

text \<open>\<open>thresholdLoop i k\<close>: the outer loop from threshold \<open>i\<close> on, with \<open>k\<close> thresholds to go.\<close>

fun thresholdLoop :: "nat \<Rightarrow> nat \<Rightarrow> state \<Rightarrow> state" where
  "thresholdLoop i 0 s = s"
| "thresholdLoop i (Suc k) s = thresholdLoop (Suc i) k (checkThreshold i s)"

definition thresholdStage :: "state \<Rightarrow> state" where
  "thresholdStage s =
     (if sendEvents s then
        (if nWraps s = 0 then thresholdLoop 0 (unat (nThresholds s)) s else s)
      else s)"

subsection \<open>The drain and the whole loop\<close>

definition swapBuffers :: "state \<Rightarrow> fault + state" where
  "swapBuffers s =
     (let s1 = s\<lparr>positionBufferFlag := False\<rparr>;
          s2 = s1\<lparr>nPositions := iPositionBuffer s1 (unat (currentPositionBuffer s1))\<rparr>;
          s3 = s2\<lparr>thisPositionBuffer := currentPositionBuffer s2\<rparr>;
          s4 = s3\<lparr>currentPositionBuffer := 1 - currentPositionBuffer s3\<rparr>
      in if 2 \<le> unat (currentPositionBuffer s4) then Inl OutOfBounds
         else Inr (s4\<lparr>iPositionBuffer := (iPositionBuffer s4)(unat (currentPositionBuffer s4) := 0)\<rparr>))"

definition drainStage :: "state \<Rightarrow> fault + state" where
  "drainStage s =
     (if positionBufferFlag s then
        bind_res (swapBuffers s) (\<lambda>s1.
        bind_res (usbStreamStage s1) (\<lambda>s2.
          Inr (thresholdStage (moduleStreamStage (logStage s2)))))
      else Inr s)"

definition loop :: "state \<Rightarrow> fault + state" where
  "loop s = bind_res (cmdStage s) drainStage"

section \<open>Start-up and runs\<close>

text \<open>
  The globals as initialised, after \<^verbatim>\<open>setup()\<close>: the file has been removed and opened
  anew, and \<^verbatim>\<open>wrapPointInverse\<close> has been computed. \<^verbatim>\<open>thresholdActive = {true}\<close> sets the
  first flag only.
\<close>

definition initState :: state where
  "initState =
     \<lparr>moduleStreamPrefix = 77, outputStreamDatatype = 72,
      thresholds = (\<lambda>i. 0), thresholdActive = (\<lambda>i. i = 0), nThresholds = maxThresholds,
      wrapPoint = 512, nWraps = 0,
      usbStreaming = False, sendEvents = True, isLogging = False, moduleStreaming = False,
      EncoderPos = 0, currentDir = 0,
      opCode = 0, opSource = 0, param = 0, newOp = False,
      loggedDataAvailable = False, wrappingEnabled = True, wrapMode = 0,
      EncoderPinAValue = False, LastEncoderPinAValue = False, EncoderPinBValue = False,
      dataPos = 0, currentTime = 0, wrapPointInverse = - 512,
      sdReadBuffer = (\<lambda>i. 0), positionBuffer = (\<lambda>i c. 0), timeBuffer = (\<lambda>i c. 0),
      iPositionBuffer = (\<lambda>c. 0), positionBufferFlag = False,
      currentPositionBuffer = 0, thisPositionBuffer = 0,
      newEventType = 0, newEventCode = 0, newEventTime = 0, newEvent = False,
      usbStreamingBufferPos = 0, usbStreamingBuffer = (\<lambda>i. 0), nPositions = 0,
      DataFile = [], filePos = 0,
      usbIn = [], smIn = [], osIn = [], usbOut = [], smOut = [], osOut = []\<rparr>"

text \<open>
  What can happen to the module, one thing at a time: a pin-A interrupt with the two pin
  levels, the clock advancing, bytes arriving at a port, one pass of \<^verbatim>\<open>loop()\<close>.
\<close>

datatype action = Edge bool bool | Tick uint32 | Receive port "byte list" | Loop

fun step :: "action \<Rightarrow> state \<Rightarrow> fault + state" where
  "step (Edge a b) s = updatePosition a b s"
| "step (Tick d) s = Inr (s\<lparr>currentTime := currentTime s + d\<rparr>)"
| "step (Receive p bs) s = Inr (setInQueue p (inQueue p s @ bs) s)"
| "step Loop s = loop s"

fun run :: "action list \<Rightarrow> state \<Rightarrow> fault + state" where
  "run [] s = Inr s"
| "run (a # as) s = bind_res (step a s) (run as)"

text \<open>The actions of the encoder side alone: interrupts and the passing of time.\<close>

fun encoderOnly :: "action \<Rightarrow> bool" where
  "encoderOnly (Edge a b) = True"
| "encoderOnly (Tick d) = True"
| "encoderOnly (Receive p bs) = False"
| "encoderOnly Loop = False"


section \<open>Notions used by the properties\<close>

text \<open>
  The wrap configuration as \<^verbatim>\<open>setup()\<close> and the command \<^verbatim>\<open>'W'\<close> leave it for a positive
  wrap point: wrapping is on and \<^verbatim>\<open>wrapPointInverse\<close> is the negated wrap point.
\<close>

definition wrapConfigured :: "state \<Rightarrow> bool" where
  "wrapConfigured s = (wrappingEnabled s \<and> wrapPointInverse s = - wrapPoint s \<and> 0 < sint (wrapPoint s))"

text \<open>The range of positions of the wrap mode of \<open>s\<close>: symmetric in mode 0, from zero in mode 1.\<close>

definition inWrapRange :: "state \<Rightarrow> int16 \<Rightarrow> bool" where
  "inWrapRange s p =
     ((wrapMode s = 0 \<longrightarrow> - sint (wrapPoint s) \<le> sint p \<and> sint p \<le> sint (wrapPoint s)) \<and>
      (wrapMode s = 1 \<longrightarrow> 0 \<le> sint p \<and> sint p \<le> sint (wrapPoint s)))"

text \<open>
  The test of \<^verbatim>\<open>updatePosition\<close> for a rising edge of pin A, and the direction that each
  of its four branches stores in \<^verbatim>\<open>currentDir\<close> (0 clockwise, 1 counter-clockwise): the
  direction that the edge implies.
\<close>

definition risingEdge :: "bool \<Rightarrow> state \<Rightarrow> bool" where
  "risingEdge a s = (a \<and> \<not> LastEncoderPinAValue s)"

definition impliedDir :: "bool \<Rightarrow> bool \<Rightarrow> state \<Rightarrow> byte" where
  "impliedDir a b s = (if risingEdge a s then (if b then 0 else 1) else (if b then 1 else 0))"

text \<open>
  The threshold detector, in the words of the spec: a negative threshold is crossed by a
  sample at or below its value, a non-negative threshold by a sample at or above it; a
  threshold fires on a batch when it is enabled and some sample of the batch crosses it.
\<close>

definition crossedBy :: "int16 \<Rightarrow> int16 \<Rightarrow> bool" where
  "crossedBy t p = (if sint t < 0 then sint p \<le> sint t else sint t \<le> sint p)"

definition fires :: "state \<Rightarrow> nat \<Rightarrow> bool" where
  "fires s i = (thresholdActive s i \<and> (\<exists>p\<in>set (map fst (batch s)). crossedBy (thresholds s i) p))"

text \<open>The part of the state that the threshold detector reads or writes, equal in two states.\<close>

definition thresholdView :: "state \<Rightarrow> state \<Rightarrow> bool" where
  "thresholdView s t =
     (sendEvents t = sendEvents s \<and> nWraps t = nWraps s \<and> nThresholds t = nThresholds s \<and>
      thresholds t = thresholds s \<and> thresholdActive t = thresholdActive s \<and> smOut t = smOut s \<and>
      positionBuffer t = positionBuffer s \<and> timeBuffer t = timeBuffer s \<and>
      thisPositionBuffer t = thisPositionBuffer s \<and> nPositions t = nPositions s)"


section \<open>Properties of the interrupt handler\<close>

lemma sint_neg_pos: "0 < sint (w :: int16) \<Longrightarrow> sint (- w) = - sint w"
proof -
  assume p: "0 < sint w"
  have "sint w < 2 ^ 15" using sint_lt [of w] by simp
  with p have "signed_take_bit 15 (- sint w) = - sint w"
    by (intro signed_take_bit_int_eq_self) auto
  then show ?thesis by (simp add: sint_word_ariths)
qed

lemma wrapPosition_range:
  assumes "wrapConfigured s"
  shows "inWrapRange s (EncoderPos (wrapPosition s))"
  using assms sint_neg_pos [of "wrapPoint s"]
  by (auto simp: wrapPosition_def wrapConfigured_def inWrapRange_def)

lemma wrapPosition_frame:
  "wrapPosition s = s\<lparr>EncoderPos := EncoderPos (wrapPosition s), nWraps := nWraps (wrapPosition s)\<rparr>"
  by (simp add: wrapPosition_def)

lemma unat_succ32: "unat (x :: uint32) < 1024 \<Longrightarrow> unat (x + 1) = unat x + 1"
  by (simp add: unat_word_ariths)

lemma commitSample_Inr:
  "commitSample s = Inr s' \<Longrightarrow>
     unat (currentPositionBuffer s) < 2 \<and>
     unat (iPositionBuffer s (unat (currentPositionBuffer s))) < positionBufferSize \<and>
     s' = s\<lparr>positionBuffer := (positionBuffer s)(unat (iPositionBuffer s (unat (currentPositionBuffer s))) :=
                (positionBuffer s (unat (iPositionBuffer s (unat (currentPositionBuffer s)))))(unat (currentPositionBuffer s) := EncoderPos s)),
            timeBuffer := (timeBuffer s)(unat (iPositionBuffer s (unat (currentPositionBuffer s))) :=
                (timeBuffer s (unat (iPositionBuffer s (unat (currentPositionBuffer s)))))(unat (currentPositionBuffer s) := currentTime s)),
            iPositionBuffer := (iPositionBuffer s)(unat (currentPositionBuffer s) := iPositionBuffer s (unat (currentPositionBuffer s)) + 1),
            positionBufferFlag := True\<rparr>"
  by (auto simp: commitSample_def Let_def split: if_splits)


lemma updatePosition_inconsistent:
  "impliedDir a b s \<noteq> currentDir s \<Longrightarrow>
   updatePosition a b s =
     Inr (s\<lparr>EncoderPinAValue := a, EncoderPinBValue := b, currentDir := impliedDir a b s,
            LastEncoderPinAValue := a\<rparr>)"
  by (auto simp: updatePosition_def impliedDir_def risingEdge_def bind_res_def Let_def)

lemma updatePosition_low:
  "\<not> b \<Longrightarrow>
   updatePosition a b s =
     Inr (s\<lparr>EncoderPinAValue := a, EncoderPinBValue := b, currentDir := impliedDir a b s,
            LastEncoderPinAValue := a\<rparr>)"
  by (auto simp: updatePosition_def impliedDir_def risingEdge_def bind_res_def Let_def)

lemma wrapPosition_pins [simp]:
  "EncoderPinAValue (wrapPosition s) = EncoderPinAValue s"
  "EncoderPinBValue (wrapPosition s) = EncoderPinBValue s"
  by (simp_all add: wrapPosition_def)

lemma commitSample_pinA: "commitSample s = Inr s' \<Longrightarrow> EncoderPinAValue s' = EncoderPinAValue s"
  by (auto simp: commitSample_def Let_def split: if_splits)

lemma updatePosition_consistent:
  assumes "impliedDir a b s = currentDir s" "b"
  shows "updatePosition a b s =
     bind_res (commitSample (wrapPosition (s\<lparr>EncoderPinAValue := a, EncoderPinBValue := b,
                   EncoderPos := EncoderPos s + (if risingEdge a s then 1 else - 1)\<rparr>)))
       (\<lambda>s1. Inr (s1\<lparr>currentDir := impliedDir a b s, LastEncoderPinAValue := a\<rparr>))"
proof (cases "risingEdge a s")
  case True
  let ?X = "s\<lparr>EncoderPinAValue := a, EncoderPinBValue := b, EncoderPos := EncoderPos s + 1\<rparr>"
  from True assms have d: "currentDir s = 0" "impliedDir a b s = 0" by (auto simp: impliedDir_def)
  show ?thesis
  proof (cases "commitSample (wrapPosition ?X)")
    case (Inl e)
    with True assms d show ?thesis
      by (simp add: updatePosition_def risingEdge_def bind_res_def Let_def processPosition_def)
  next
    case (Inr s1)
    from commitSample_pinA [OF Inr] have "EncoderPinAValue s1 = a" by simp
    with Inr True assms d show ?thesis
      by (simp add: updatePosition_def risingEdge_def bind_res_def Let_def processPosition_def)
  qed
next
  case False
  let ?X = "s\<lparr>EncoderPinAValue := a, EncoderPinBValue := b, EncoderPos := EncoderPos s - 1\<rparr>"
  from False assms have d: "currentDir s = 1" "impliedDir a b s = 1" by (auto simp: impliedDir_def)
  show ?thesis
  proof (cases "commitSample (wrapPosition ?X)")
    case (Inl e)
    with False assms d show ?thesis
      by (auto simp: updatePosition_def risingEdge_def bind_res_def Let_def processPosition_def)
  next
    case (Inr s1)
    from commitSample_pinA [OF Inr] have "EncoderPinAValue s1 = a" by simp
    with Inr False assms d show ?thesis
      by (auto simp: updatePosition_def risingEdge_def bind_res_def Let_def processPosition_def)
  qed
qed


lemma wrapPosition_fields [simp]:
  "wrappingEnabled (wrapPosition s) = wrappingEnabled s"
  "wrapPoint (wrapPosition s) = wrapPoint s"
  "wrapPointInverse (wrapPosition s) = wrapPointInverse s"
  "wrapMode (wrapPosition s) = wrapMode s"
  "currentPositionBuffer (wrapPosition s) = currentPositionBuffer s"
  "iPositionBuffer (wrapPosition s) = iPositionBuffer s"
  "positionBuffer (wrapPosition s) = positionBuffer s"
  "timeBuffer (wrapPosition s) = timeBuffer s"
  "currentTime (wrapPosition s) = currentTime s"
  "positionBufferFlag (wrapPosition s) = positionBufferFlag s"
  by (simp_all add: wrapPosition_def)

lemma wrapPosition_pins_irrelevant:
  "EncoderPos (wrapPosition (s\<lparr>EncoderPinAValue := a, EncoderPinBValue := b, EncoderPos := x\<rparr>)) =
   EncoderPos (wrapPosition (s\<lparr>EncoderPos := x\<rparr>))"
  by (simp add: wrapPosition_def)

lemma wrapConfigured_cong:
  "wrappingEnabled t = wrappingEnabled s \<Longrightarrow> wrapPoint t = wrapPoint s \<Longrightarrow>
   wrapPointInverse t = wrapPointInverse s \<Longrightarrow> wrapConfigured t = wrapConfigured s"
  by (simp add: wrapConfigured_def)

lemma inWrapRange_cong:
  "wrapPoint t = wrapPoint s \<Longrightarrow> wrapMode t = wrapMode s \<Longrightarrow> inWrapRange t = inWrapRange s"
  by (simp add: inWrapRange_def fun_eq_iff)

lemma updatePosition_wrap_step:
  assumes cfg: "wrapConfigured s" and up: "updatePosition a b s = Inr s'"
  shows "wrapConfigured s' \<and> wrapPoint s' = wrapPoint s \<and> wrapMode s' = wrapMode s \<and>
         currentPositionBuffer s' = currentPositionBuffer s \<and>
         (\<forall>j. j < unat (iPositionBuffer s (unat (currentPositionBuffer s))) \<longrightarrow>
              positionBuffer s' j (unat (currentPositionBuffer s)) = positionBuffer s j (unat (currentPositionBuffer s))) \<and>
         (iPositionBuffer s' (unat (currentPositionBuffer s)) = iPositionBuffer s (unat (currentPositionBuffer s)) \<or>
          unat (iPositionBuffer s' (unat (currentPositionBuffer s))) = Suc (unat (iPositionBuffer s (unat (currentPositionBuffer s)))) \<and>
          inWrapRange s (positionBuffer s' (unat (iPositionBuffer s (unat (currentPositionBuffer s)))) (unat (currentPositionBuffer s))))"
proof (cases "impliedDir a b s = currentDir s \<and> b")
  case False
  then have "updatePosition a b s =
     Inr (s\<lparr>EncoderPinAValue := a, EncoderPinBValue := b, currentDir := impliedDir a b s,
            LastEncoderPinAValue := a\<rparr>)"
    using updatePosition_inconsistent [of a b s] updatePosition_low [of b a s] by blast
  with up have "s' = s\<lparr>EncoderPinAValue := a, EncoderPinBValue := b, currentDir := impliedDir a b s,
            LastEncoderPinAValue := a\<rparr>" by simp
  with cfg show ?thesis by (simp add: wrapConfigured_def)
next
  case True
  let ?X = "s\<lparr>EncoderPinAValue := a, EncoderPinBValue := b,
                EncoderPos := EncoderPos s + (if risingEdge a s then 1 else - 1)\<rparr>"
  let ?W = "wrapPosition ?X"
  from True up obtain s1 where c: "commitSample ?W = Inr s1"
    and s': "s' = s1\<lparr>currentDir := impliedDir a b s, LastEncoderPinAValue := a\<rparr>"
    by (auto simp: updatePosition_consistent bind_res_def split: sum.splits)
  have cfgX: "wrapConfigured ?X" using cfg by (simp add: wrapConfigured_def)
  have rng: "inWrapRange s (EncoderPos ?W)"
    using wrapPosition_range [OF cfgX] by (simp add: inWrapRange_def)
  note cs = commitSample_Inr [OF c]
  let ?c = "unat (currentPositionBuffer s)"
  let ?k = "unat (iPositionBuffer s ?c)"
  from cs have k: "?k < 1024" by (simp add: positionBufferSize_def)
  from cs have eq: "s1 = ?W\<lparr>positionBuffer := (positionBuffer s)(?k := (positionBuffer s ?k)(?c := EncoderPos ?W)),
            timeBuffer := (timeBuffer s)(?k := (timeBuffer s ?k)(?c := currentTime s)),
            iPositionBuffer := (iPositionBuffer s)(?c := iPositionBuffer s ?c + 1),
            positionBufferFlag := True\<rparr>" by simp
  have "unat (iPositionBuffer s' ?c) = Suc ?k"
    using unat_succ32 [OF k] by (simp add: s' eq)
  moreover have "positionBuffer s' ?k ?c = EncoderPos ?W" by (simp add: s' eq)
  moreover have "\<forall>j. j < ?k \<longrightarrow> positionBuffer s' j ?c = positionBuffer s j ?c" by (simp add: s' eq)
  moreover have "wrapConfigured s'" "wrapPoint s' = wrapPoint s" "wrapMode s' = wrapMode s"
    "currentPositionBuffer s' = currentPositionBuffer s"
    using cfg by (simp_all add: s' eq wrapConfigured_def)
  ultimately show ?thesis using rng by simp
qed

lemma step_wrap_step:
  assumes enc: "encoderOnly x" and cfg: "wrapConfigured s" and up: "step x s = Inr s'"
  shows "wrapConfigured s' \<and> wrapPoint s' = wrapPoint s \<and> wrapMode s' = wrapMode s \<and>
         currentPositionBuffer s' = currentPositionBuffer s \<and>
         (\<forall>j. j < unat (iPositionBuffer s (unat (currentPositionBuffer s))) \<longrightarrow>
              positionBuffer s' j (unat (currentPositionBuffer s)) = positionBuffer s j (unat (currentPositionBuffer s))) \<and>
         (iPositionBuffer s' (unat (currentPositionBuffer s)) = iPositionBuffer s (unat (currentPositionBuffer s)) \<or>
          unat (iPositionBuffer s' (unat (currentPositionBuffer s))) = Suc (unat (iPositionBuffer s (unat (currentPositionBuffer s)))) \<and>
          inWrapRange s (positionBuffer s' (unat (iPositionBuffer s (unat (currentPositionBuffer s)))) (unat (currentPositionBuffer s))))"
proof (cases x)
  case (Edge a b)
  with up show ?thesis using updatePosition_wrap_step [OF cfg, of a b s'] by simp
next
  case (Tick d)
  with up cfg show ?thesis by (auto simp: wrapConfigured_def)
qed (use enc in simp_all)

lemma run_wrap_range:
  assumes "\<forall>x\<in>set xs. encoderOnly x" "wrapConfigured s" "run xs s = Inr s'"
  shows "wrapConfigured s' \<and> wrapPoint s' = wrapPoint s \<and> wrapMode s' = wrapMode s \<and>
         currentPositionBuffer s' = currentPositionBuffer s \<and>
         unat (iPositionBuffer s (unat (currentPositionBuffer s))) \<le> unat (iPositionBuffer s' (unat (currentPositionBuffer s))) \<and>
         (\<forall>j. j < unat (iPositionBuffer s (unat (currentPositionBuffer s))) \<longrightarrow>
              positionBuffer s' j (unat (currentPositionBuffer s)) = positionBuffer s j (unat (currentPositionBuffer s))) \<and>
         (\<forall>j. unat (iPositionBuffer s (unat (currentPositionBuffer s))) \<le> j \<and>
              j < unat (iPositionBuffer s' (unat (currentPositionBuffer s))) \<longrightarrow>
              inWrapRange s (positionBuffer s' j (unat (currentPositionBuffer s))))"
  using assms
proof (induction xs arbitrary: s)
  case Nil
  then show ?case by auto
next
  case (Cons x xs)
  from Cons.prems obtain s1 where st: "step x s = Inr s1" and rn: "run xs s1 = Inr s'"
    by (auto simp: bind_res_def split: sum.splits)
  from Cons.prems have enc: "encoderOnly x" and encs: "\<forall>x\<in>set xs. encoderOnly x" by simp_all
  note S = step_wrap_step [OF enc Cons.prems(2) st]
  from S have cfg1: "wrapConfigured s1" by simp
  note R = Cons.IH [OF encs cfg1 rn]
  from S have c1: "currentPositionBuffer s1 = currentPositionBuffer s" by simp
  have rg: "inWrapRange s1 = inWrapRange s" using S by (intro inWrapRange_cong) simp_all
  let ?c = "unat (currentPositionBuffer s)"
  let ?k = "unat (iPositionBuffer s ?c)"
  let ?k1 = "unat (iPositionBuffer s1 ?c)"
  let ?k' = "unat (iPositionBuffer s' ?c)"
  from S have k01: "?k1 = ?k \<or> (?k1 = Suc ?k \<and> inWrapRange s (positionBuffer s1 ?k ?c))" by auto
  from R c1 have k12: "?k1 \<le> ?k'" by simp
  from R c1 have keep1: "\<forall>j. j < ?k1 \<longrightarrow> positionBuffer s' j ?c = positionBuffer s1 j ?c" by simp
  from R c1 rg have new1: "\<forall>j. ?k1 \<le> j \<and> j < ?k' \<longrightarrow> inWrapRange s (positionBuffer s' j ?c)" by simp
  from S have keep0: "\<forall>j. j < ?k \<longrightarrow> positionBuffer s1 j ?c = positionBuffer s j ?c" by simp
  have A: "?k \<le> ?k'" using k01 k12 by auto
  have B: "\<forall>j. j < ?k \<longrightarrow> positionBuffer s' j ?c = positionBuffer s j ?c"
    using keep0 keep1 k01 by auto
  have C: "\<forall>j. ?k \<le> j \<and> j < ?k' \<longrightarrow> inWrapRange s (positionBuffer s' j ?c)"
  proof (intro allI impI)
    fix j assume j: "?k \<le> j \<and> j < ?k'"
    show "inWrapRange s (positionBuffer s' j ?c)"
    proof (cases "?k1 \<le> j")
      case True
      with j new1 show ?thesis by simp
    next
      case False
      with j k01 have "j = ?k" "?k1 = Suc ?k" "inWrapRange s (positionBuffer s1 ?k ?c)" by auto
      with keep1 show ?thesis by simp
    qed
  qed
  from R S c1 have "wrapConfigured s'" "wrapPoint s' = wrapPoint s" "wrapMode s' = wrapMode s"
    "currentPositionBuffer s' = currentPositionBuffer s" by simp_all
  with A B C show ?case by simp
qed

lemma updatePosition_consistent_Inr:
  assumes t: "impliedDir a b s = currentDir s" "b" and up: "updatePosition a b s = Inr s'"
  shows "s' = (wrapPosition (s\<lparr>EncoderPinAValue := a, EncoderPinBValue := b,
                  EncoderPos := EncoderPos s + (if risingEdge a s then 1 else - 1)\<rparr>))
           \<lparr>positionBuffer := (positionBuffer s)(unat (iPositionBuffer s (unat (currentPositionBuffer s))) :=
                (positionBuffer s (unat (iPositionBuffer s (unat (currentPositionBuffer s)))))(unat (currentPositionBuffer s) :=
                   EncoderPos (wrapPosition (s\<lparr>EncoderPos := EncoderPos s + (if risingEdge a s then 1 else - 1)\<rparr>)))),
            timeBuffer := (timeBuffer s)(unat (iPositionBuffer s (unat (currentPositionBuffer s))) :=
                (timeBuffer s (unat (iPositionBuffer s (unat (currentPositionBuffer s)))))(unat (currentPositionBuffer s) := currentTime s)),
            iPositionBuffer := (iPositionBuffer s)(unat (currentPositionBuffer s) := iPositionBuffer s (unat (currentPositionBuffer s)) + 1),
            positionBufferFlag := True, currentDir := impliedDir a b s, LastEncoderPinAValue := a\<rparr>"
proof -
  let ?W = "wrapPosition (s\<lparr>EncoderPinAValue := a, EncoderPinBValue := b,
                  EncoderPos := EncoderPos s + (if risingEdge a s then 1 else - 1)\<rparr>)"
  from up obtain s1 where c: "commitSample ?W = Inr s1"
    and s': "s' = s1\<lparr>currentDir := impliedDir a b s, LastEncoderPinAValue := a\<rparr>"
    unfolding updatePosition_consistent [OF t] by (auto simp: bind_res_def split: sum.splits)
  from commitSample_Inr [OF c] have "s1 = ?W\<lparr>positionBuffer := (positionBuffer s)(unat (iPositionBuffer s (unat (currentPositionBuffer s))) :=
                (positionBuffer s (unat (iPositionBuffer s (unat (currentPositionBuffer s)))))(unat (currentPositionBuffer s) :=
                   EncoderPos ?W)),
            timeBuffer := (timeBuffer s)(unat (iPositionBuffer s (unat (currentPositionBuffer s))) :=
                (timeBuffer s (unat (iPositionBuffer s (unat (currentPositionBuffer s)))))(unat (currentPositionBuffer s) := currentTime s)),
            iPositionBuffer := (iPositionBuffer s)(unat (currentPositionBuffer s) := iPositionBuffer s (unat (currentPositionBuffer s)) + 1),
            positionBufferFlag := True\<rparr>" by simp
  then show ?thesis unfolding s' wrapPosition_pins_irrelevant by simp
qed

text \<open>
  Claim C1. For every sequence of quadrature steps and any wrap point above zero, the
  position right after wrap processing lies within \<open>[-wrapPoint, wrapPoint]\<close> in bipolar
  mode and within \<open>[0, wrapPoint]\<close> in unipolar mode. The position after wrap processing
  is what \<^verbatim>\<open>processPosition\<close> stores in the position buffer: every sample that a run of
  interrupts adds to the buffer (the slots from the count before the run up to the
  count after it) is in the range of the mode.
\<close>

theorem position_within_wrap_range:
  assumes "wrappingEnabled s" and "wrapPointInverse s = - wrapPoint s" and "0 < sint (wrapPoint s)"
    and "\<forall>x\<in>set xs. encoderOnly x" and "run xs s = Inr s'"
    and "unat (iPositionBuffer s (unat (currentPositionBuffer s))) \<le> j"
    and "j < unat (iPositionBuffer s' (unat (currentPositionBuffer s)))"
  shows "(wrapMode s = 0 \<longrightarrow>
            - sint (wrapPoint s) \<le> sint (positionBuffer s' j (unat (currentPositionBuffer s))) \<and>
            sint (positionBuffer s' j (unat (currentPositionBuffer s))) \<le> sint (wrapPoint s)) \<and>
         (wrapMode s = 1 \<longrightarrow>
            0 \<le> sint (positionBuffer s' j (unat (currentPositionBuffer s))) \<and>
            sint (positionBuffer s' j (unat (currentPositionBuffer s))) \<le> sint (wrapPoint s))"
proof -
  have cfg: "wrapConfigured s" using assms(1-3) by (simp add: wrapConfigured_def)
  from run_wrap_range [OF assms(4) cfg assms(5)] assms(6,7)
  have "inWrapRange s (positionBuffer s' j (unat (currentPositionBuffer s)))" by blast
  then show ?thesis by (simp add: inWrapRange_def)
qed

theorem position_within_wrap_range_witness:
  "\<exists>s'. run [Edge True True, Tick 7, Edge False False, Edge True True] (initState\<lparr>EncoderPos := 511\<rparr>) = Inr s' \<and>
        unat (iPositionBuffer s' 0) = 2 \<and>
        positionBuffer s' 0 0 = - 512 \<and> positionBuffer s' 1 0 = - 511 \<and>
        - sint (wrapPoint initState) \<le> sint (positionBuffer s' 1 0) \<and>
        sint (positionBuffer s' 1 0) \<le> sint (wrapPoint initState)"
proof -
  let ?s = "initState\<lparr>EncoderPos := 511\<rparr>"
  let ?xs = "[Edge True True, Tick 7, Edge False False, Edge True True]"
  have ex: "\<exists>s'. run ?xs ?s = Inr s' \<and> unat (iPositionBuffer s' 0) = 2 \<and>
        positionBuffer s' 0 0 = - 512 \<and> positionBuffer s' 1 0 = - 511"
    by (simp add: initState_def updatePosition_def processPosition_def wrapPosition_def
        commitSample_def bind_res_def Let_def positionBufferSize_def)
  then obtain s' where r: "run ?xs ?s = Inr s'" and k: "unat (iPositionBuffer s' 0) = 2"
    and p: "positionBuffer s' 0 0 = - 512" "positionBuffer s' 1 0 = - 511" by blast
  have h: "wrappingEnabled ?s" "wrapPointInverse ?s = - wrapPoint ?s" "0 < sint (wrapPoint ?s)"
    "\<forall>x\<in>set ?xs. encoderOnly x" "wrapMode ?s = 0"
    "unat (iPositionBuffer ?s (unat (currentPositionBuffer ?s))) \<le> 1"
    "unat (currentPositionBuffer ?s) = 0" "wrapPoint ?s = wrapPoint initState"
    by (simp_all add: initState_def)
  from k h(7) have j: "1 < unat (iPositionBuffer s' (unat (currentPositionBuffer ?s)))" by simp
  from position_within_wrap_range [OF h(1) h(2) h(3) h(4) r h(6) j] h(5) h(7) h(8) r k p
  show ?thesis by auto
qed

text \<open>
  Claim C8. On every edge interrupt the position is advanced only when the direction
  that the edge implies equals the direction recorded before: by \<open>+1\<close> on a rising edge
  and by \<open>-1\<close> on a falling edge (with pin B high), followed by wrap processing and one
  new sample. An edge whose direction differs from the recorded one stores the new
  direction and the pin levels and changes nothing else: no position change, no sample.
\<close>

theorem edge_advances_only_when_consistent:
  "(impliedDir a b s \<noteq> currentDir s \<longrightarrow>
      updatePosition a b s =
        Inr (s\<lparr>EncoderPinAValue := a, EncoderPinBValue := b, currentDir := impliedDir a b s,
               LastEncoderPinAValue := a\<rparr>)) \<and>
   (\<forall>s'. updatePosition a b s = Inr s' \<longrightarrow>
      currentDir s' = impliedDir a b s \<and>
      (EncoderPos s' \<noteq> EncoderPos s \<or> nWraps s' \<noteq> nWraps s \<or>
       positionBuffer s' \<noteq> positionBuffer s \<or> timeBuffer s' \<noteq> timeBuffer s \<or>
       iPositionBuffer s' \<noteq> iPositionBuffer s \<or> positionBufferFlag s' \<noteq> positionBufferFlag s
         \<longrightarrow> impliedDir a b s = currentDir s \<and> b) \<and>
      (impliedDir a b s = currentDir s \<and> b \<longrightarrow>
         EncoderPos s' = EncoderPos (wrapPosition (s\<lparr>EncoderPos := EncoderPos s + (if risingEdge a s then 1 else - 1)\<rparr>)) \<and>
         positionBuffer s' (unat (iPositionBuffer s (unat (currentPositionBuffer s)))) (unat (currentPositionBuffer s)) = EncoderPos s' \<and>
         timeBuffer s' (unat (iPositionBuffer s (unat (currentPositionBuffer s)))) (unat (currentPositionBuffer s)) = currentTime s \<and>
         iPositionBuffer s' (unat (currentPositionBuffer s)) = iPositionBuffer s (unat (currentPositionBuffer s)) + 1 \<and>
         positionBufferFlag s'))"
proof (cases "impliedDir a b s = currentDir s \<and> b")
  case False
  let ?S0 = "s\<lparr>EncoderPinAValue := a, EncoderPinBValue := b, currentDir := impliedDir a b s,
            LastEncoderPinAValue := a\<rparr>"
  have u: "updatePosition a b s = Inr ?S0"
    using False updatePosition_inconsistent [of a b s] updatePosition_low [of b a s] by blast
  have "currentDir s' = impliedDir a b s \<and> EncoderPos s' = EncoderPos s \<and> nWraps s' = nWraps s \<and>
       positionBuffer s' = positionBuffer s \<and> timeBuffer s' = timeBuffer s \<and>
       iPositionBuffer s' = iPositionBuffer s \<and> positionBufferFlag s' = positionBufferFlag s"
    if "updatePosition a b s = Inr s'" for s'
  proof -
    from that u have "s' = ?S0" by simp
    then show ?thesis by simp
  qed
  with False u show ?thesis by metis
next
  case True
  then have t: "impliedDir a b s = currentDir s" "b" by blast+
  have "EncoderPos s' = EncoderPos (wrapPosition (s\<lparr>EncoderPos := EncoderPos s + (if risingEdge a s then 1 else - 1)\<rparr>)) \<and>
         positionBuffer s' (unat (iPositionBuffer s (unat (currentPositionBuffer s)))) (unat (currentPositionBuffer s)) = EncoderPos s' \<and>
         timeBuffer s' (unat (iPositionBuffer s (unat (currentPositionBuffer s)))) (unat (currentPositionBuffer s)) = currentTime s \<and>
         iPositionBuffer s' (unat (currentPositionBuffer s)) = iPositionBuffer s (unat (currentPositionBuffer s)) + 1 \<and>
         positionBufferFlag s' \<and> currentDir s' = impliedDir a b s"
    if "updatePosition a b s = Inr s'" for s'
  proof -
    note e = updatePosition_consistent_Inr [OF t that]
    have "EncoderPos s' = EncoderPos (wrapPosition (s\<lparr>EncoderPos := EncoderPos s + (if risingEdge a s then 1 else - 1)\<rparr>))"
      by (subst e) (simp add: wrapPosition_def)
    moreover have "positionBuffer s' (unat (iPositionBuffer s (unat (currentPositionBuffer s)))) (unat (currentPositionBuffer s)) =
        EncoderPos (wrapPosition (s\<lparr>EncoderPos := EncoderPos s + (if risingEdge a s then 1 else - 1)\<rparr>))"
      by (subst e) simp
    moreover have "timeBuffer s' (unat (iPositionBuffer s (unat (currentPositionBuffer s)))) (unat (currentPositionBuffer s)) = currentTime s"
      by (subst e) simp
    moreover have "iPositionBuffer s' (unat (currentPositionBuffer s)) = iPositionBuffer s (unat (currentPositionBuffer s)) + 1"
      by (subst e) simp
    moreover have "positionBufferFlag s'" by (subst e) simp
    moreover have "currentDir s' = impliedDir a b s" by (subst e) simp
    ultimately show ?thesis by simp
  qed
  with True show ?thesis by metis
qed



theorem edge_advances_only_when_consistent_witness:
  "impliedDir True True initState = currentDir initState \<and>
   (\<exists>s'. updatePosition True True initState = Inr s' \<and> EncoderPos s' = 1 \<and>
         positionBuffer s' 0 0 = 1 \<and> iPositionBuffer s' 0 = 1) \<and>
   impliedDir True False initState \<noteq> currentDir initState \<and>
   updatePosition True False initState =
     Inr (initState\<lparr>EncoderPinAValue := True, EncoderPinBValue := False, currentDir := 1,
                    LastEncoderPinAValue := True\<rparr>)"
proof -
  have d: "impliedDir True True initState = currentDir initState"
    "impliedDir True False initState \<noteq> currentDir initState"
    "impliedDir True False initState = 1"
    by (simp_all add: impliedDir_def risingEdge_def initState_def)
  have e: "\<exists>s'. updatePosition True True initState = Inr s'"
    by (simp add: initState_def updatePosition_def processPosition_def wrapPosition_def
        commitSample_def bind_res_def Let_def positionBufferSize_def)
  then obtain s' where u: "updatePosition True True initState = Inr s'" by blast
  have v: "EncoderPos (wrapPosition (initState\<lparr>EncoderPos := EncoderPos initState + (if risingEdge True initState then 1 else - 1)\<rparr>)) = 1"
    "unat (currentPositionBuffer initState) = 0" "unat (iPositionBuffer initState 0) = 0"
    "iPositionBuffer initState 0 = 0"
    by (simp_all add: initState_def wrapPosition_def risingEdge_def)
  note T = edge_advances_only_when_consistent [of True True initState]
  from T u d(1) have
    "EncoderPos s' = EncoderPos (wrapPosition (initState\<lparr>EncoderPos := EncoderPos initState + (if risingEdge True initState then 1 else - 1)\<rparr>)) \<and>
     positionBuffer s' (unat (iPositionBuffer initState (unat (currentPositionBuffer initState)))) (unat (currentPositionBuffer initState)) = EncoderPos s' \<and>
     timeBuffer s' (unat (iPositionBuffer initState (unat (currentPositionBuffer initState)))) (unat (currentPositionBuffer initState)) = currentTime initState \<and>
     iPositionBuffer s' (unat (currentPositionBuffer initState)) = iPositionBuffer initState (unat (currentPositionBuffer initState)) + 1 \<and>
     positionBufferFlag s'" by blast
  then have "EncoderPos s' = 1 \<and> positionBuffer s' 0 0 = 1 \<and> iPositionBuffer s' 0 = 1"
    unfolding v by simp
  moreover from edge_advances_only_when_consistent [of True False initState] d(2)
  have "updatePosition True False initState =
     Inr (initState\<lparr>EncoderPinAValue := True, EncoderPinBValue := False,
            currentDir := impliedDir True False initState, LastEncoderPinAValue := True\<rparr>)" by blast
  ultimately show ?thesis using d u by auto
qed


section \<open>Properties of the commands\<close>

lemma readByte_usb:
  "readByte myUSB s = (case usbIn s of [] \<Rightarrow> Inl (Blocked s) | x # xs \<Rightarrow> Inr (x, s\<lparr>usbIn := xs\<rparr>))"
  by (simp add: readByte_def inQueue_def setInQueue_def split: list.splits)

lemma readByte_sm:
  "readByte StateMachineCOM s = (case smIn s of [] \<Rightarrow> Inl (Blocked s) | x # xs \<Rightarrow> Inr (x, s\<lparr>smIn := xs\<rparr>))"
  by (simp add: readByte_def inQueue_def setInQueue_def split: list.splits)

lemma readByte_os:
  "readByte OutputStreamCOM s = (case osIn s of [] \<Rightarrow> Inl (Blocked s) | x # xs \<Rightarrow> Inr (x, s\<lparr>osIn := xs\<rparr>))"
  by (simp add: readByte_def inQueue_def setInQueue_def split: list.splits)

lemma readInt16_usb:
  "readInt16 myUSB s =
     (case usbIn s of [] \<Rightarrow> Inl (Blocked s)
      | lo # xs \<Rightarrow> (case xs of [] \<Rightarrow> Inl (Blocked (s\<lparr>usbIn := []\<rparr>))
                    | hi # ys \<Rightarrow> Inr (int16OfBytes lo hi, s\<lparr>usbIn := ys\<rparr>)))"
  by (simp add: readInt16_def readByte_usb bind_res_def split: list.splits)

lemma writeByteArray_usb: "writeByteArray myUSB bs s = s\<lparr>usbOut := usbOut s @ bs\<rparr>"
  by (simp add: writeByteArray_def)

lemma writeByteArray_sm: "writeByteArray StateMachineCOM bs s = s\<lparr>smOut := smOut s @ bs\<rparr>"
  by (simp add: writeByteArray_def)

lemma writeByteArray_os: "writeByteArray OutputStreamCOM bs s = s\<lparr>osOut := osOut s @ bs\<rparr>"
  by (simp add: writeByteArray_def)

lemmas io_simps = readByte_usb readByte_sm readByte_os readInt16_usb writeByteArray_usb
  writeByteArray_sm writeByteArray_os writeByte_def writeUint32_def writeInt16_def writeUint16_def
  readByteFromSource_def bind_res_def

lemma op_Z_nWraps: "op_Z s = Inr s' \<Longrightarrow> nWraps s' = 0"
  by (auto simp: op_Z_def put7_def io_simps Let_def split: if_splits)

lemma op_E_nWraps: "op_E s = Inr s' \<Longrightarrow> nWraps s' = 0"
  by (auto simp: op_E_def)

lemma op_semicolon_nWraps: "op_semicolon s = Inr s' \<Longrightarrow> nWraps s' = 0"
  by (auto simp: op_semicolon_def io_simps Let_def split: if_splits list.splits)

lemma op_P_nWraps: "opSource s = 0 \<Longrightarrow> op_P s = Inr s' \<Longrightarrow> nWraps s' = 0"
  by (auto simp: op_P_def io_simps split: list.splits)

lemma op_W_nWraps: "opSource s = 0 \<Longrightarrow> op_W s = Inr s' \<Longrightarrow> nWraps s' = 0"
  by (auto simp: op_W_def io_simps Let_def split: list.splits if_splits)

lemma op_S_nWraps: "opSource s = 0 \<Longrightarrow> op_S s = Inr s' \<Longrightarrow> usbStreaming s' \<Longrightarrow> nWraps s' = 0"
  by (auto simp: op_S_def io_simps Let_def split: list.splits if_splits)

lemma op_M_nWraps: "op_M s = Inr s' \<Longrightarrow> nWraps s' = nWraps s"
  by (auto simp: op_M_def io_simps Let_def split: list.splits if_splits)


lemmas exec_simps = loop_def cmdStage_def pollStage_def dispatchOp_def drainStage_def swapBuffers_def
  usbStreamStage_def logStage_def moduleStreamStage_def thresholdStage_def
  updatePosition_def processPosition_def wrapPosition_def commitSample_def positionBufferSize_def
  setInQueue_def inQueue_def Let_def

text \<open>
  Claim C3 says that the wrap count is zero after every command that resets the position,
  sets the wrap point, changes the threshold-enable state or sets the wrap mode. As stated
  it fails for \<^verbatim>\<open>'M'\<close>: the host sets the position to 511 (\<^verbatim>\<open>'P'\<close>), one clockwise step
  wraps it (wrap count 1), and after the host's \<^verbatim>\<open>'M'\<close> with mode 1 the wrap count is
  still 1.
\<close>

theorem wrap_mode_command_keeps_wrap_count:
  "run [Receive myUSB [80, 255, 1], Loop, Edge True True, Loop, Receive myUSB [77, 1], Loop] initState =
   Inr (initState\<lparr>usbOut := [1, 1], opCode := 77, EncoderPos := - 512, nWraps := 1, wrapMode := 1,
          EncoderPinAValue := True, EncoderPinBValue := True, LastEncoderPinAValue := True,
          positionBuffer := (\<lambda>i c. 0)(0 := (\<lambda>c. 0)(0 := - 512)),
          iPositionBuffer := (\<lambda>c. 0)(0 := 1),
          nPositions := 1, currentPositionBuffer := 1\<rparr>)"
  by (auto simp: initState_def exec_simps io_simps op_P_def op_M_def int16OfBytes_def fun_eq_iff)

lemma op_semicolon_returns:
  assumes "(opSource s = 0 \<and> usbIn s \<noteq> []) \<or> (opSource s = 1 \<and> smIn s \<noteq> []) \<or>
      (opSource s = 2 \<and> osIn s \<noteq> [])"
  shows "\<exists>s'. op_semicolon s = Inr s'"
proof -
  from assms consider x xs where "opSource s = 0" "usbIn s = x # xs"
    | x xs where "opSource s = 1" "smIn s = x # xs"
    | x xs where "opSource s = 2" "osIn s = x # xs"
    by (auto simp: neq_Nil_conv)
  then show ?thesis
    by cases (simp_all add: op_semicolon_def io_simps Let_def)
qed

lemma op_P_W_returns:
  assumes "2 \<le> length (usbIn s)"
  shows "\<exists>s'. op_P s = Inr s'" "\<exists>s'. op_W s = Inr s'"
proof -
  from assms obtain lo hi xs where "usbIn s = lo # hi # xs"
    by (cases "usbIn s"; cases "tl (usbIn s)") auto
  then show "\<exists>s'. op_P s = Inr s'" "\<exists>s'. op_W s = Inr s'"
    by (simp_all add: op_P_def op_W_def io_simps Let_def)
qed

lemma op_S_M_returns:
  assumes "usbIn s \<noteq> []"
  shows "\<exists>s'. op_S s = Inr s'" "\<exists>s'. op_M s = Inr s'"
proof -
  from assms obtain x xs where "usbIn s = x # xs" by (auto simp: neq_Nil_conv)
  then show "\<exists>s'. op_S s = Inr s'" "\<exists>s'. op_M s = Inr s'"
    by (simp_all add: op_S_def op_M_def io_simps Let_def)
qed

lemma dispatchOp_returns:
  "opCode s = 90 \<or> opCode s = 69 \<Longrightarrow> \<exists>s'. dispatchOp s = Inr s'"
  "opCode s = 59 \<Longrightarrow> (opSource s = 0 \<and> usbIn s \<noteq> []) \<or> (opSource s = 1 \<and> smIn s \<noteq> []) \<or>
      (opSource s = 2 \<and> osIn s \<noteq> []) \<Longrightarrow> \<exists>s'. dispatchOp s = Inr s'"
  "opCode s = 80 \<or> opCode s = 87 \<Longrightarrow> 2 \<le> length (usbIn s) \<Longrightarrow> \<exists>s'. dispatchOp s = Inr s'"
  "opCode s = 83 \<or> opCode s = 77 \<Longrightarrow> usbIn s \<noteq> [] \<Longrightarrow> \<exists>s'. dispatchOp s = Inr s'"
proof -
  show "opCode s = 90 \<or> opCode s = 69 \<Longrightarrow> \<exists>s'. dispatchOp s = Inr s'"
    by (auto simp: dispatchOp_def op_Z_def op_E_def Let_def)
  show "opCode s = 59 \<Longrightarrow> (opSource s = 0 \<and> usbIn s \<noteq> []) \<or> (opSource s = 1 \<and> smIn s \<noteq> []) \<or>
      (opSource s = 2 \<and> osIn s \<noteq> []) \<Longrightarrow> \<exists>s'. dispatchOp s = Inr s'"
    using op_semicolon_returns [of s] by (simp add: dispatchOp_def)
  show "opCode s = 80 \<or> opCode s = 87 \<Longrightarrow> 2 \<le> length (usbIn s) \<Longrightarrow> \<exists>s'. dispatchOp s = Inr s'"
    using op_P_W_returns [of s] by (auto simp: dispatchOp_def)
  show "opCode s = 83 \<or> opCode s = 77 \<Longrightarrow> usbIn s \<noteq> [] \<Longrightarrow> \<exists>s'. dispatchOp s = Inr s'"
    using op_S_M_returns [of s] by (auto simp: dispatchOp_def)
qed

text \<open>
  Claim C3, amended. After \<^verbatim>\<open>'Z'\<close> (90), \<^verbatim>\<open>'E'\<close> (69) and \<^verbatim>\<open>';'\<close> (59) from any source, and
  after \<^verbatim>\<open>'P'\<close> (80), \<^verbatim>\<open>'W'\<close> (87) and a starting \<^verbatim>\<open>'S'\<close> (83) from the host, the wrap count
  is zero; \<^verbatim>\<open>'M'\<close> (77) leaves the wrap count as it was. Each of these commands returns
  once its payload has arrived.
\<close>

theorem wrap_count_reset_by_commands:
  "(\<forall>s'. dispatchOp s = Inr s' \<longrightarrow>
      (opCode s = 90 \<or> opCode s = 69 \<or> opCode s = 59 \<longrightarrow> nWraps s' = 0) \<and>
      (opSource s = 0 \<and> (opCode s = 80 \<or> opCode s = 87) \<longrightarrow> nWraps s' = 0) \<and>
      (opSource s = 0 \<and> opCode s = 83 \<and> usbStreaming s' \<longrightarrow> nWraps s' = 0) \<and>
      (opCode s = 77 \<longrightarrow> nWraps s' = nWraps s)) \<and>
   ((opCode s = 90 \<or> opCode s = 69 \<or>
     (opCode s = 59 \<and> ((opSource s = 0 \<and> usbIn s \<noteq> []) \<or> (opSource s = 1 \<and> smIn s \<noteq> []) \<or>
                         (opSource s = 2 \<and> osIn s \<noteq> []))) \<or>
     ((opCode s = 80 \<or> opCode s = 87) \<and> 2 \<le> length (usbIn s)) \<or>
     ((opCode s = 83 \<or> opCode s = 77) \<and> usbIn s \<noteq> []))
    \<longrightarrow> (\<exists>s'. dispatchOp s = Inr s'))"
proof (intro conjI allI impI)
  fix s' assume d: "dispatchOp s = Inr s'"
  show "nWraps s' = 0" if "opCode s = 90 \<or> opCode s = 69 \<or> opCode s = 59"
    using that d op_Z_nWraps [of s s'] op_E_nWraps [of s s'] op_semicolon_nWraps [of s s']
    by (auto simp: dispatchOp_def)
  show "nWraps s' = 0" if "opSource s = 0 \<and> (opCode s = 80 \<or> opCode s = 87)"
    using that d op_P_nWraps [of s s'] op_W_nWraps [of s s'] by (auto simp: dispatchOp_def)
  show "nWraps s' = 0" if "opSource s = 0 \<and> opCode s = 83 \<and> usbStreaming s'"
    using that d op_S_nWraps [of s s'] by (auto simp: dispatchOp_def)
  show "nWraps s' = nWraps s" if "opCode s = 77"
    using that d op_M_nWraps [of s s'] by (auto simp: dispatchOp_def)
next
  assume "opCode s = 90 \<or> opCode s = 69 \<or>
     (opCode s = 59 \<and> ((opSource s = 0 \<and> usbIn s \<noteq> []) \<or> (opSource s = 1 \<and> smIn s \<noteq> []) \<or>
                         (opSource s = 2 \<and> osIn s \<noteq> []))) \<or>
     ((opCode s = 80 \<or> opCode s = 87) \<and> 2 \<le> length (usbIn s)) \<or>
     ((opCode s = 83 \<or> opCode s = 77) \<and> usbIn s \<noteq> [])"
  then show "\<exists>s'. dispatchOp s = Inr s'"
    using dispatchOp_returns [of s] by blast
qed

theorem wrap_count_reset_by_commands_witness:
  "dispatchOp (initState\<lparr>nWraps := 3, opCode := 87, usbIn := [0, 1]\<rparr>) =
     Inr (initState\<lparr>nWraps := 0, opCode := 87, wrapPoint := 256, wrapPointInverse := - 256, usbOut := [1]\<rparr>) \<and>
   nWraps (initState\<lparr>nWraps := 0, opCode := 87, wrapPoint := 256, wrapPointInverse := - 256, usbOut := [1]\<rparr>) = 0"
proof -
  let ?s = "initState\<lparr>nWraps := 3, opCode := 87, usbIn := [0, 1]\<rparr>"
  have e: "dispatchOp ?s =
     Inr (initState\<lparr>nWraps := 0, opCode := 87, wrapPoint := 256, wrapPointInverse := - 256, usbOut := [1]\<rparr>)"
    by (simp add: initState_def dispatchOp_def op_W_def io_simps Let_def int16OfBytes_def)
  have h: "opSource ?s = 0 \<and> (opCode ?s = 80 \<or> opCode ?s = 87)" by (simp add: initState_def)
  from wrap_count_reset_by_commands [of ?s] e h
  have "nWraps (initState\<lparr>nWraps := 0, opCode := 87, wrapPoint := 256, wrapPointInverse := - 256, usbOut := [1]\<rparr>) = 0"
    by blast
  with e show ?thesis by simp
qed

lemma cmdStage_host:
  "usbIn s = x # xs \<Longrightarrow>
   cmdStage s = dispatchOp (s\<lparr>usbIn := xs, opCode := x, opSource := 0, newOp := False\<rparr>)"
  by (simp add: cmdStage_def pollStage_def Let_def)

lemma fullReads_isLogging [simp]: "isLogging (fullReads k s) = isLogging s"
  by (induction k arbitrary: s) (simp_all add: fileRead_def writeByteArray_usb Let_def)

lemma le32_0: "le32 0 = [0, 0, 0, 0]"
  by (simp add: le32_def)

lemma op_R_isLogging: "op_R s = Inr s' \<Longrightarrow> opSource s = 0 \<Longrightarrow> \<not> isLogging s'"
  by (auto simp: op_R_def Let_def io_simps fileRead_def fileSeek0_def split: if_splits)

lemma op_R_returns: "\<exists>s'. op_R s = Inr s'"
  by (simp add: op_R_def Let_def)

lemma op_R_unavailable:
  "opSource s = 0 \<Longrightarrow> \<not> loggedDataAvailable s \<Longrightarrow>
   op_R s = Inr (s\<lparr>isLogging := False, usbOut := usbOut s @ [0, 0, 0, 0]\<rparr>)"
  by (simp add: op_R_def Let_def io_simps le32_0)

text \<open>
  Claim C9. A host \<^verbatim>\<open>'R'\<close> always returns with the logging-active flag cleared. When no
  logged data is available it writes the four bytes of the count 0 and changes nothing
  else: apart from the dispatcher's own bookkeeping (the opcode consumed from the host
  queue, \<^verbatim>\<open>opCode\<close>, \<^verbatim>\<open>opSource\<close>, \<^verbatim>\<open>newOp\<close>) the state, with the sample counter and
  the availability flag, is the one before.
\<close>

theorem readback_clears_logging_flag:
  assumes "usbIn s = 82 # rest"
  shows "\<exists>s'. cmdStage s = Inr s' \<and> \<not> isLogging s' \<and>
           (\<not> loggedDataAvailable s \<longrightarrow>
              s' = s\<lparr>usbIn := rest, opCode := 82, opSource := 0, newOp := False,
                     isLogging := False, usbOut := usbOut s @ [0, 0, 0, 0]\<rparr>)"
proof -
  let ?s0 = "s\<lparr>usbIn := rest, opCode := 82, opSource := 0, newOp := False\<rparr>"
  have c: "cmdStage s = op_R ?s0"
    using assms by (simp add: cmdStage_host dispatchOp_def)
  obtain s' where r: "op_R ?s0 = Inr s'" using op_R_returns by blast
  have "\<not> isLogging s'" using op_R_isLogging [OF r] by simp
  moreover have "s' = s\<lparr>usbIn := rest, opCode := 82, opSource := 0, newOp := False,
                     isLogging := False, usbOut := usbOut s @ [0, 0, 0, 0]\<rparr>"
    if "\<not> loggedDataAvailable s"
    using that r op_R_unavailable [of ?s0] by simp
  ultimately show ?thesis using c r by simp
qed

theorem readback_clears_logging_flag_witness:
  "cmdStage (initState\<lparr>isLogging := True, dataPos := 3, usbIn := [82]\<rparr>) =
     Inr (initState\<lparr>isLogging := False, opCode := 82, dataPos := 3, usbOut := [0, 0, 0, 0]\<rparr>)"
proof -
  let ?s = "initState\<lparr>isLogging := True, dataPos := 3, usbIn := [82]\<rparr>"
  have h: "usbIn ?s = 82 # []" "\<not> loggedDataAvailable ?s" by (simp_all add: initState_def)
  from readback_clears_logging_flag [OF h(1)] h(2)
  have "cmdStage ?s = Inr (?s\<lparr>usbIn := [], opCode := 82, opSource := 0, newOp := False,
                     isLogging := False, usbOut := usbOut ?s @ [0, 0, 0, 0]\<rparr>)" by auto
  then show ?thesis by (simp add: initState_def)
qed

lemma readThresholds_complete:
  "usbIn s = payload @ rest \<Longrightarrow> length payload = 2 * k \<Longrightarrow>
   readThresholds i k s =
     Inr (s\<lparr>usbIn := rest,
            thresholds := (\<lambda>j. if i \<le> j \<and> j < i + k
                               then int16OfBytes (payload ! (2 * (j - i))) (payload ! (2 * (j - i) + 1))
                               else thresholds s j)\<rparr>)"
proof (induction k arbitrary: i s payload)
  case 0
  have "(\<lambda>j. if i \<le> j \<and> j < i + 0
             then int16OfBytes (payload ! (2 * (j - i))) (payload ! (2 * (j - i) + 1))
             else thresholds s j) = thresholds s"
    by (auto simp: fun_eq_iff)
  with 0 show ?case by simp
next
  case (Suc k)
  from Suc.prems(2) obtain lo hi p where p: "payload = lo # hi # p" "length p = 2 * k"
    by (cases payload; cases "tl payload") auto
  let ?s1 = "s\<lparr>usbIn := p @ rest, thresholds := (thresholds s)(i := int16OfBytes lo hi)\<rparr>"
  have u: "usbIn ?s1 = p @ rest" by simp
  have "readThresholds i (Suc k) s = readThresholds (Suc i) k ?s1"
    using Suc.prems(1) p by (simp add: io_simps)
  also have "\<dots> = Inr (?s1\<lparr>usbIn := rest,
            thresholds := (\<lambda>j. if Suc i \<le> j \<and> j < Suc i + k
                               then int16OfBytes (p ! (2 * (j - Suc i))) (p ! (2 * (j - Suc i) + 1))
                               else thresholds ?s1 j)\<rparr>)"
    by (rule Suc.IH [OF u p(2)])
  also have "(\<lambda>j. if Suc i \<le> j \<and> j < Suc i + k
                               then int16OfBytes (p ! (2 * (j - Suc i))) (p ! (2 * (j - Suc i) + 1))
                               else thresholds ?s1 j) =
       (\<lambda>j. if i \<le> j \<and> j < i + Suc k
                               then int16OfBytes (payload ! (2 * (j - i))) (payload ! (2 * (j - i) + 1))
                               else thresholds s j)"
  proof
    fix j
    consider "j < i" | "j = i" | "i < j" by linarith
    then show "(if Suc i \<le> j \<and> j < Suc i + k
                               then int16OfBytes (p ! (2 * (j - Suc i))) (p ! (2 * (j - Suc i) + 1))
                               else thresholds ?s1 j) =
       (if i \<le> j \<and> j < i + Suc k
                               then int16OfBytes (payload ! (2 * (j - i))) (payload ! (2 * (j - i) + 1))
                               else thresholds s j)"
    proof cases
      case 1 then show ?thesis by simp
    next
      case 2 then show ?thesis by (simp add: p)
    next
      case 3
      then obtain d where d: "j = Suc i + d" using less_iff_Suc_add by auto
      have "2 * (j - i) = Suc (Suc (2 * d))" using d by simp
      moreover have "2 * (j - Suc i) = 2 * d" using d by simp
      ultimately show ?thesis using 3 d by (simp add: p)
    qed
  qed
  finally show ?case by simp
qed

lemma readThresholds_incomplete:
  "length (usbIn s) < 2 * k \<Longrightarrow>
   \<exists>sb. readThresholds i k s = Inl (Blocked sb) \<and> usbOut sb = usbOut s"
proof (induction k arbitrary: i s)
  case 0
  then show ?case by simp
next
  case (Suc k)
  consider "usbIn s = []" | lo where "usbIn s = [lo]" | lo hi p where "usbIn s = lo # hi # p"
    by (cases "usbIn s"; cases "tl (usbIn s)") auto
  then show ?case
  proof cases
    case 1 then show ?thesis by (simp add: io_simps)
  next
    case 2 then show ?thesis by (simp add: io_simps)
  next
    case 3
    let ?s1 = "s\<lparr>usbIn := p, thresholds := (thresholds s)(i := int16OfBytes lo hi)\<rparr>"
    have "length (usbIn ?s1) < 2 * k" using Suc.prems 3 by simp
    from Suc.IH [OF this, of "Suc i"] 3 show ?thesis by (simp add: io_simps)
  qed
qed


text \<open>
  Claim C6. A host \<^verbatim>\<open>'T'\<close> with count byte \<open>n\<close>: if \<open>n > 8\<close>, the single byte 0 is written and
  thresholds, count and enable flags stay as they are; if \<open>n \<le> 8\<close> and the \<open>2n\<close> payload
  bytes are there, the count becomes \<open>n\<close>, the first \<open>n\<close> values become the transmitted
  ones, and the single byte 1 is written. The acknowledgment comes last: while payload
  bytes are still missing the command waits with nothing written to the host.
\<close>

theorem program_thresholds:
  "(usbIn s = 84 # n # rest \<and> 8 < n \<longrightarrow>
      cmdStage s = Inr (s\<lparr>usbIn := rest, opCode := 84, opSource := 0, param := n, newOp := False,
                          usbOut := usbOut s @ [0]\<rparr>)) \<and>
   (usbIn s = 84 # n # payload @ rest \<and> n \<le> 8 \<and> length payload = 2 * unat n \<longrightarrow>
      cmdStage s =
        Inr (s\<lparr>usbIn := rest, opCode := 84, opSource := 0, param := n, newOp := False,
               nThresholds := n,
               thresholds := (\<lambda>j. if j < unat n
                                  then int16OfBytes (payload ! (2 * j)) (payload ! (2 * j + 1))
                                  else thresholds s j),
               usbOut := usbOut s @ [1]\<rparr>)) \<and>
   (usbIn s = 84 # n # payload \<and> n \<le> 8 \<and> length payload < 2 * unat n \<longrightarrow>
      (\<exists>sb. cmdStage s = Inl (Blocked sb) \<and> usbOut sb = usbOut s))"
proof (intro conjI impI)
  assume a: "usbIn s = 84 # n # rest \<and> 8 < n"
  then have "\<not> n \<le> 8" by (auto simp: not_le)
  with a show "cmdStage s = Inr (s\<lparr>usbIn := rest, opCode := 84, opSource := 0, param := n, newOp := False,
                          usbOut := usbOut s @ [0]\<rparr>)"
    by (simp add: cmdStage_host dispatchOp_def op_T_def io_simps Let_def maxThresholds_def)
next
  assume a: "usbIn s = 84 # n # payload @ rest \<and> n \<le> 8 \<and> length payload = 2 * unat n"
  let ?s2 = "s\<lparr>opCode := 84, opSource := 0, newOp := False, usbIn := payload @ rest, param := n,
               nThresholds := n\<rparr>"
  have c: "cmdStage s = bind_res (readThresholds 0 (unat n) ?s2) (\<lambda>s3. Inr (writeByte myUSB 1 s3))"
    using a by (simp add: cmdStage_host dispatchOp_def op_T_def readByte_usb bind_res_def Let_def maxThresholds_def)
  have u: "usbIn ?s2 = payload @ rest" by simp
  from a have l: "length payload = 2 * unat n" by simp
  show "cmdStage s =
        Inr (s\<lparr>usbIn := rest, opCode := 84, opSource := 0, param := n, newOp := False,
               nThresholds := n,
               thresholds := (\<lambda>j. if j < unat n
                                  then int16OfBytes (payload ! (2 * j)) (payload ! (2 * j + 1))
                                  else thresholds s j),
               usbOut := usbOut s @ [1]\<rparr>)"
    unfolding c readThresholds_complete [OF u l]
    apply (simp add: bind_res_def writeByte_def writeByteArray_usb)
    apply (rule state.equality; simp add: fun_eq_iff)
    done
next
  assume a: "usbIn s = 84 # n # payload \<and> n \<le> 8 \<and> length payload < 2 * unat n"
  let ?s2 = "s\<lparr>opCode := 84, opSource := 0, newOp := False, usbIn := payload, param := n,
               nThresholds := n\<rparr>"
  have c: "cmdStage s = bind_res (readThresholds 0 (unat n) ?s2) (\<lambda>s3. Inr (writeByte myUSB 1 s3))"
    using a by (simp add: cmdStage_host dispatchOp_def op_T_def readByte_usb bind_res_def Let_def maxThresholds_def)
  have "length (usbIn ?s2) < 2 * unat n" using a by simp
  from readThresholds_incomplete [OF this, of 0]
  obtain sb where "readThresholds 0 (unat n) ?s2 = Inl (Blocked sb)" "usbOut sb = usbOut s"
    by auto
  then show "\<exists>sb. cmdStage s = Inl (Blocked sb) \<and> usbOut sb = usbOut s"
    unfolding c by (simp add: bind_res_def)
qed


theorem program_thresholds_witness:
  "cmdStage (initState\<lparr>usbIn := [84, 9, 1, 0]\<rparr>) =
     Inr (initState\<lparr>usbIn := [1, 0], opCode := 84, param := 9, usbOut := [0]\<rparr>) \<and>
   cmdStage (initState\<lparr>usbIn := [84, 2, 156, 255, 44, 1, 7]\<rparr>) =
     Inr (initState\<lparr>usbIn := [7], opCode := 84, param := 2, nThresholds := 2,
            thresholds := (\<lambda>j. if j < 2 then [- 100, 300] ! j else 0), usbOut := [1]\<rparr>) \<and>
   (\<exists>sb. cmdStage (initState\<lparr>usbIn := [84, 2, 156, 255, 44]\<rparr>) = Inl (Blocked sb) \<and> usbOut sb = [])"
proof -
  let ?a = "initState\<lparr>usbIn := [84, 9, 1, 0]\<rparr>"
  let ?b = "initState\<lparr>usbIn := [84, 2, 156, 255, 44, 1, 7]\<rparr>"
  let ?c = "initState\<lparr>usbIn := [84, 2, 156, 255, 44]\<rparr>"
  have h1: "usbIn ?a = 84 # 9 # [1, 0] \<and> (8 :: byte) < 9" by simp
  have h2: "usbIn ?b = 84 # 2 # [156, 255, 44, 1] @ [7] \<and>
      (2 :: byte) \<le> 8 \<and> length [156, 255, 44, 1 :: byte] = 2 * unat (2 :: byte)" by simp
  have h3: "usbIn ?c = 84 # 2 # [156, 255, 44] \<and>
      (2 :: byte) \<le> 8 \<and> length [156, 255, 44 :: byte] < 2 * unat (2 :: byte)" by simp
  have v: "int16OfBytes 156 255 = - 100" "int16OfBytes 44 1 = 300"
    by (simp_all add: int16OfBytes_def)
  have i0: "thresholds initState = (\<lambda>j. 0)" "usbOut initState = []" by (simp_all add: initState_def)
  have t: "(\<lambda>j. if j < unat (2 :: byte)
                 then int16OfBytes ([156, 255, 44, 1] ! (2 * j)) ([156, 255, 44, 1] ! (2 * j + 1))
                 else thresholds ?b j) =
           (\<lambda>j. if j < 2 then [- 100, 300] ! j else 0)"
  proof
    fix j :: nat
    consider "j = 0" | "j = 1" | "2 \<le> j" by linarith
    then show "(if j < unat (2 :: byte)
                 then int16OfBytes ([156, 255, 44, 1] ! (2 * j)) ([156, 255, 44, 1] ! (2 * j + 1))
                 else thresholds ?b j) = (if j < 2 then [- 100, 300] ! j else 0)"
      by cases (simp_all add: v i0)
  qed
  from program_thresholds [where s = ?a and n = 9 and rest = "[1, 0]"] h1
  have "cmdStage ?a = Inr (?a\<lparr>usbIn := [1, 0], opCode := 84, opSource := 0, param := 9, newOp := False,
                          usbOut := usbOut ?a @ [0]\<rparr>)" by blast
  then have 1: "cmdStage ?a = Inr (initState\<lparr>usbIn := [1, 0], opCode := 84, param := 9, usbOut := [0]\<rparr>)"
    by (simp add: initState_def)
  from program_thresholds [where s = ?b and n = 2 and rest = "[7]" and payload = "[156, 255, 44, 1]"] h2
  have "cmdStage ?b =
        Inr (?b\<lparr>usbIn := [7], opCode := 84, opSource := 0, param := 2, newOp := False,
               nThresholds := 2,
               thresholds := (\<lambda>j. if j < unat (2 :: byte)
                                  then int16OfBytes ([156, 255, 44, 1] ! (2 * j)) ([156, 255, 44, 1] ! (2 * j + 1))
                                  else thresholds ?b j),
               usbOut := usbOut ?b @ [1]\<rparr>)" by blast
  then have 2: "cmdStage ?b =
     Inr (initState\<lparr>usbIn := [7], opCode := 84, param := 2, nThresholds := 2,
            thresholds := (\<lambda>j. if j < 2 then [- 100, 300] ! j else 0), usbOut := [1]\<rparr>)"
    unfolding t by (simp add: initState_def)
  from program_thresholds [where s = ?c and n = 2 and payload = "[156, 255, 44]"] h3
  have "\<exists>sb. cmdStage ?c = Inl (Blocked sb) \<and> usbOut sb = usbOut ?c" by blast
  then have 3: "\<exists>sb. cmdStage ?c = Inl (Blocked sb) \<and> usbOut sb = []"
    by (simp add: i0)
  from 1 2 3 show ?thesis by blast
qed


section \<open>Properties of the read-back\<close>

lemma map_buffer_chunk:
  "length c = n \<Longrightarrow> map (\<lambda>i. if i < length c then c ! i else g i) [0..<n] = c"
  by (simp add: list_eq_iff_nth_eq)

lemma fileRead_enough:
  assumes "filePos s + n \<le> length (DataFile s)"
  shows "map (sdReadBuffer (fileRead n s)) [0..<n] = take n (drop (filePos s) (DataFile s))"
    and "filePos (fileRead n s) = filePos s + n"
proof -
  have l: "length (take n (drop (filePos s) (DataFile s))) = n" using assms by simp
  show "map (sdReadBuffer (fileRead n s)) [0..<n] = take n (drop (filePos s) (DataFile s))"
    unfolding fileRead_def Let_def using map_buffer_chunk [OF l] by simp
  show "filePos (fileRead n s) = filePos s + n"
    unfolding fileRead_def Let_def using l by simp
qed

lemma fileRead_fields [simp]:
  "DataFile (fileRead n s) = DataFile s" "dataPos (fileRead n s) = dataPos s"
  "usbOut (fileRead n s) = usbOut s" "usbIn (fileRead n s) = usbIn s"
  "loggedDataAvailable (fileRead n s) = loggedDataAvailable s"
  by (simp_all add: fileRead_def Let_def)

lemma fullReads_fields [simp]:
  "DataFile (fullReads k s) = DataFile s" "dataPos (fullReads k s) = dataPos s"
  "usbIn (fullReads k s) = usbIn s"
  "loggedDataAvailable (fullReads k s) = loggedDataAvailable s"
  by (induction k arbitrary: s; simp add: Let_def writeByteArray_usb)+

lemma take_chunks:
  "take b (drop p f) @ take (k * b) (drop (p + b) f) = take (Suc k * b) (drop p f)"
proof -
  have "take (b + k * b) (drop p f) = take b (drop p f) @ take (k * b) (drop b (drop p f))"
    by (rule take_add)
  then show ?thesis by (simp add: add.commute)
qed

lemma fullReads_enough:
  "filePos s + k * unat sdReadBufferSize \<le> length (DataFile s) \<Longrightarrow>
   usbOut (fullReads k s) = usbOut s @ take (k * unat sdReadBufferSize) (drop (filePos s) (DataFile s)) \<and>
   filePos (fullReads k s) = filePos s + k * unat sdReadBufferSize"
proof (induction k arbitrary: s)
  case 0
  then show ?case by simp
next
  case (Suc k)
  let ?B = "unat sdReadBufferSize"
  let ?s1 = "fileRead ?B s"
  let ?s2 = "writeByteArray myUSB (map (sdReadBuffer ?s1) [0..<?B]) ?s1"
  from Suc.prems have e: "filePos s + ?B \<le> length (DataFile s)" by simp
  note fr = fileRead_enough [OF e]
  have p2: "filePos ?s2 = filePos s + ?B" "DataFile ?s2 = DataFile s"
    "usbOut ?s2 = usbOut s @ take ?B (drop (filePos s) (DataFile s))"
    using fr by (simp_all add: writeByteArray_usb)
  have "filePos ?s2 + k * ?B \<le> length (DataFile ?s2)" using Suc.prems p2 by simp
  from Suc.IH [OF this] have
    "usbOut (fullReads k ?s2) = usbOut ?s2 @ take (k * ?B) (drop (filePos ?s2) (DataFile ?s2))"
    "filePos (fullReads k ?s2) = filePos ?s2 + k * ?B" by simp_all
  moreover have "fullReads (Suc k) s = fullReads k ?s2"
    by (simp add: Let_def)
  ultimately show ?case using p2 take_chunks [of ?B "filePos s" "DataFile s" k] by simp
qed


lemma unat_sdReadBufferSize: "unat sdReadBufferSize = 2048"
  by (simp add: sdReadBufferSize_def)

lemma readback_arith:
  fixes d :: uint32
  assumes N: "8 * unat d < 2 ^ 32"
  defines "nF \<equiv> (if sdReadBufferSize < d * 8
                   then (of_nat ((unat d * 8) div unat sdReadBufferSize) :: uint32) else 0)"
  shows "unat nF * unat sdReadBufferSize + unat (d * 8 - nF * sdReadBufferSize) = 8 * unat d"
    and "unat nF * unat sdReadBufferSize \<le> 8 * unat d"
proof -
  let ?M = "8 * unat d"
  have m: "unat (d * 8) = ?M" using N by (simp add: unat_word_ariths mult.commute)
  have c: "sdReadBufferSize < d * 8 \<longleftrightarrow> 2048 < ?M"
    by (simp add: word_less_nat_alt m unat_sdReadBufferSize)
  have q: "unat (of_nat (?M div 2048) :: uint32) = ?M div 2048"
    using N by (simp add: unat_of_nat)
  have k: "unat nF = (if 2048 < ?M then ?M div 2048 else 0)"
    using c q by (simp add: nF_def unat_sdReadBufferSize mult.commute)
  have kb: "unat nF * 2048 \<le> ?M" using k by auto
  have p: "unat (nF * sdReadBufferSize) = unat nF * 2048"
    using kb N by (simp add: unat_word_ariths unat_sdReadBufferSize)
  have le: "nF * sdReadBufferSize \<le> d * 8"
    using kb by (simp add: word_le_nat_alt p m)
  have "unat (d * 8 - nF * sdReadBufferSize) = ?M - unat nF * 2048"
    using le by (simp add: unat_sub p m)
  with kb show "unat nF * unat sdReadBufferSize + unat (d * 8 - nF * sdReadBufferSize) = 8 * unat d"
    by (simp add: unat_sdReadBufferSize)
  from kb show "unat nF * unat sdReadBufferSize \<le> 8 * unat d"
    by (simp add: unat_sdReadBufferSize)
qed


lemma op_R_available:
  assumes src: "opSource s = 0" and av: "loggedDataAvailable s"
    and N: "8 * unat (dataPos s) < 2 ^ 32" and F: "8 * unat (dataPos s) \<le> length (DataFile s)"
  shows "\<exists>s'. op_R s = Inr s' \<and>
           usbOut s' = usbOut s @ le32 (dataPos s) @ take (8 * unat (dataPos s)) (DataFile s) \<and>
           dataPos s' = 0 \<and> \<not> loggedDataAvailable s' \<and> usbIn s' = usbIn s"
proof -
  let ?B = "unat sdReadBufferSize"
  let ?f = "DataFile s"
  let ?d = "dataPos s"
  let ?s2 = "fileSeek0 (s\<lparr>isLogging := False, loggedDataAvailable := False\<rparr>)"
  define nF :: uint32 where "nF = (if sdReadBufferSize < ?d * 8
                   then (of_nat ((unat ?d * 8) div unat sdReadBufferSize) :: uint32) else 0)"
  define nR :: uint32 where "nR = ?d * 8 - nF * sdReadBufferSize"
  let ?s3 = "writeUint32 myUSB ?d ?s2"
  let ?s4 = "fullReads (unat nF) ?s3"
  let ?s6 = "fileRead (unat nR) ?s4"
  let ?s5 = "if 0 < nR then writeByteArray myUSB (map (sdReadBuffer ?s6) [0..<unat nR]) ?s6 else ?s4"
  have ar: "unat nF * ?B + unat nR = 8 * unat ?d" "unat nF * ?B \<le> 8 * unat ?d"
    using readback_arith [OF N] by (simp_all add: nF_def nR_def)
  have s3: "filePos ?s3 = 0" "DataFile ?s3 = ?f" "usbOut ?s3 = usbOut s @ le32 ?d"
    "dataPos ?s3 = ?d" "usbIn ?s3 = usbIn s"
    by (simp_all add: fileSeek0_def writeUint32_def writeByteArray_usb)
  have "filePos ?s3 + unat nF * ?B \<le> length (DataFile ?s3)" using ar F s3 by simp
  from fullReads_enough [OF this]
  have s4: "usbOut ?s4 = usbOut s @ le32 ?d @ take (unat nF * ?B) ?f" "filePos ?s4 = unat nF * ?B"
    using s3 by simp_all
  have s4': "DataFile ?s4 = ?f" "dataPos ?s4 = ?d" "usbIn ?s4 = usbIn s"
    "\<not> loggedDataAvailable ?s4"
    using s3 by (simp_all add: fileSeek0_def writeUint32_def writeByteArray_usb)
  have e: "op_R s = Inr (?s5\<lparr>dataPos := 0\<rparr>)"
    using src av by (simp add: op_R_def Let_def nF_def nR_def fileSeek0_def writeUint32_def writeByteArray_usb)
  have "filePos ?s4 + unat nR \<le> length (DataFile ?s4)" using ar F s4 s4' by simp
  from fileRead_enough(1) [OF this]
  have ch: "map (sdReadBuffer ?s6) [0..<unat nR] = take (unat nR) (drop (unat nF * ?B) ?f)"
    using s4 s4' by simp
  have tk: "take (unat nF * ?B) ?f @ take (unat nR) (drop (unat nF * ?B) ?f) = take (8 * unat ?d) ?f"
    using take_add [of "unat nF * ?B" "unat nR" ?f] ar by simp
  have out: "usbOut ?s5 = usbOut s @ le32 ?d @ take (8 * unat ?d) ?f"
  proof (cases "0 < nR")
    case True
    then show ?thesis using s4 ch tk by (simp add: writeByteArray_usb)
  next
    case False
    then have "unat nR = 0" by (simp add: word_greater_zero_iff)
    with False show ?thesis using s4 tk by simp
  qed
  have rest: "\<not> loggedDataAvailable ?s5" "usbIn ?s5 = usbIn s"
    using s4' by (simp_all add: writeByteArray_usb)
  show ?thesis
    unfolding e using out rest by simp
qed


text \<open>
  Read-back of an available log whose byte length \<open>8 * N\<close> fits in 32 bits: the host
  receives the count and then the first \<open>8 * N\<close> bytes of the file, the counter is zero
  and the log is no longer available afterwards, and a read-back that follows at once
  receives the count 0 and nothing else.
\<close>

lemma readback_returns_log:
  assumes "usbIn s = 82 # rest" and "loggedDataAvailable s"
    and "8 * unat (dataPos s) < 2 ^ 32" and "8 * unat (dataPos s) \<le> length (DataFile s)"
  shows "\<exists>s'. cmdStage s = Inr s' \<and>
           usbOut s' = usbOut s @ le32 (dataPos s) @ take (8 * unat (dataPos s)) (DataFile s) \<and>
           dataPos s' = 0 \<and> \<not> loggedDataAvailable s' \<and> usbIn s' = rest"
proof -
  let ?s0 = "s\<lparr>usbIn := rest, opCode := 82, opSource := 0, newOp := False\<rparr>"
  have c: "cmdStage s = op_R ?s0" using assms(1) by (simp add: cmdStage_host dispatchOp_def)
  have "opSource ?s0 = 0" "loggedDataAvailable ?s0" "8 * unat (dataPos ?s0) < 2 ^ 32"
    "8 * unat (dataPos ?s0) \<le> length (DataFile ?s0)" using assms by simp_all
  from op_R_available [OF this] show ?thesis unfolding c by simp
qed

lemma readback_again_empty:
  assumes "usbIn s = 82 # rest" and "\<not> loggedDataAvailable s"
  shows "\<exists>s'. cmdStage s = Inr s' \<and> usbOut s' = usbOut s @ [0, 0, 0, 0] \<and> dataPos s' = dataPos s"
  using assms by (simp add: cmdStage_host dispatchOp_def op_R_def Let_def writeUint32_def
      writeByteArray_usb le32_def)

text \<open>
  Claim C7 says that for every available log of \<open>N > 0\<close> records a host \<^verbatim>\<open>'R'\<close> replies with
  the count and \<open>N * 8\<close> bytes. The code computes \<^verbatim>\<open>dataPos*8\<close> in \<^verbatim>\<open>uint32_t\<close>, although
  \<^verbatim>\<open>dataMax\<close> lets the counter run up to \<open>2^32 - 1\<close>. With \<open>N = 2^29\<close> records logged the
  product wraps to 0: the reply is the four bytes of the count and no payload at all.
\<close>

theorem readback_count_overflow:
  "cmdStage (initState\<lparr>loggedDataAvailable := True, dataPos := 536870912,
                        DataFile := replicate 4294967296 0, filePos := 4294967296, usbIn := [82]\<rparr>) =
   Inr (initState\<lparr>loggedDataAvailable := False, dataPos := 0,
                   DataFile := replicate 4294967296 0, filePos := 0, opCode := 82,
                   usbOut := [0, 0, 0, 32]\<rparr>)"
  by (simp add: cmdStage_host dispatchOp_def op_R_def Let_def writeUint32_def
      writeByteArray_usb le32_def fileSeek0_def sdReadBufferSize_def initState_def)


section \<open>Properties of the threshold detector\<close>

lemma scanSamples_pair:
  "scanSamples c ev ps (a, out) = (if a \<and> (\<exists>p\<in>set ps. c p) then (False, out @ [ev]) else (a, out))"
  by (induction ps arbitrary: a out) auto

lemma record_same: "thresholdActive s i \<Longrightarrow> s\<lparr>thresholdActive := (thresholdActive s)(i := True)\<rparr> = s"
proof -
  assume "thresholdActive s i"
  then have "(thresholdActive s)(i := True) = thresholdActive s" by (auto simp: fun_eq_iff)
  then show ?thesis by simp
qed

lemma checkThreshold_eq:
  "checkThreshold i s =
     (if fires s i
      then s\<lparr>thresholdActive := (thresholdActive s)(i := False), smOut := smOut s @ [of_nat (i + 1)]\<rparr>
      else s)"
proof (cases "thresholdActive s i")
  case False
  then show ?thesis by (simp add: checkThreshold_def fires_def)
next
  case True
  note r = record_same [OF True]
  show ?thesis
  proof (cases "fires s i")
    case f: True
    with True show ?thesis
      by (auto simp: checkThreshold_def fires_def crossedBy_def scanSamples_pair Let_def writeByteArray_sm)
  next
    case nf: False
    with True r show ?thesis
      by (auto simp: checkThreshold_def fires_def crossedBy_def scanSamples_pair Let_def writeByteArray_sm)
  qed
qed


lemma checkThreshold_frame:
  "checkThreshold i s = s\<lparr>thresholdActive := thresholdActive (checkThreshold i s),
                           smOut := smOut (checkThreshold i s)\<rparr>"
  by (cases "fires s i") (simp_all add: checkThreshold_eq)

lemma checkThreshold_active:
  "thresholdActive (checkThreshold i s) j = (if j = i then thresholdActive s i \<and> \<not> fires s i else thresholdActive s j)"
proof (cases "fires s i")
  case True
  then show ?thesis by (simp add: checkThreshold_eq)
next
  case False
  then show ?thesis by (simp add: checkThreshold_eq)
qed

lemma checkThreshold_smOut:
  "smOut (checkThreshold i s) = smOut s @ map (\<lambda>j. of_nat (j + 1)) (filter (fires s) [i])"
  by (cases "fires s i") (simp_all add: checkThreshold_eq)

lemma fires_checkThreshold:
  "j \<noteq> i \<Longrightarrow> fires (checkThreshold i s) j = fires s j"
  by (cases "fires s i") (simp_all add: checkThreshold_eq fires_def batch_def)

lemma thresholdLoop_eq:
  "thresholdLoop i k s =
     s\<lparr>thresholdActive := (\<lambda>j. if i \<le> j \<and> j < i + k then thresholdActive s j \<and> \<not> fires s j
                               else thresholdActive s j),
       smOut := smOut s @ map (\<lambda>j. of_nat (j + 1)) (filter (fires s) [i..<i + k])\<rparr>"
proof (induction k arbitrary: i s)
  case 0
  have "(\<lambda>j. if i \<le> j \<and> j < i + 0 then thresholdActive s j \<and> \<not> fires s j else thresholdActive s j)
      = thresholdActive s" by (auto simp: fun_eq_iff)
  then show ?case by simp
next
  case (Suc k)
  let ?s1 = "checkThreshold i s"
  let ?g1 = "\<lambda>j. if Suc i \<le> j \<and> j < Suc i + k
                               then thresholdActive ?s1 j \<and> \<not> fires ?s1 j
                               else thresholdActive ?s1 j"
  let ?o1 = "smOut ?s1 @ map (\<lambda>j. of_nat (j + 1)) (filter (fires ?s1) [Suc i..<Suc i + k])"
  let ?g = "\<lambda>j. if i \<le> j \<and> j < i + Suc k then thresholdActive s j \<and> \<not> fires s j
                               else thresholdActive s j"
  let ?o = "smOut s @ map (\<lambda>j. of_nat (j + 1)) (filter (fires s) [i..<i + Suc k])"
  have f: "filter (fires ?s1) [Suc i..<Suc i + k] = filter (fires s) [Suc i..<Suc i + k]"
    by (rule filter_cong) (auto simp: fires_checkThreshold)
  have u: "[i..<i + Suc k] = [i] @ [Suc i..<Suc i + k]" by (simp add: upt_conv_Cons)
  have o: "?o1 = ?o"
    unfolding f u checkThreshold_smOut filter_append map_append by simp
  have g: "?g1 = ?g"
  proof
    fix j
    consider "j < i" | "j = i" | "i < j" by linarith
    then show "?g1 j = ?g j"
      by cases (simp_all add: checkThreshold_active fires_checkThreshold)
  qed
  have "thresholdLoop i (Suc k) s = thresholdLoop (Suc i) k ?s1" by simp
  also have "\<dots> = ?s1\<lparr>thresholdActive := ?g1, smOut := ?o1\<rparr>"
    by (rule Suc.IH)
  also have "\<dots> = s\<lparr>thresholdActive := ?g1, smOut := ?o1\<rparr>"
    by (subst checkThreshold_frame) simp
  finally show ?case unfolding g o .
qed


lemma thresholdStage_eq:
  "thresholdStage s =
     (if sendEvents s \<and> nWraps s = 0
      then s\<lparr>thresholdActive := (\<lambda>j. if j < unat (nThresholds s) then thresholdActive s j \<and> \<not> fires s j
                                     else thresholdActive s j),
             smOut := smOut s @ map (\<lambda>j. of_nat (j + 1)) (filter (fires s) [0..<unat (nThresholds s)])\<rparr>
      else s)"
  using thresholdLoop_eq [of 0 "unat (nThresholds s)" s] by (simp add: thresholdStage_def)

lemma event_byte_inj:
  assumes "i < 255" "j < 255" "(of_nat (i + 1) :: byte) = of_nat (j + 1)"
  shows "i = j"
proof -
  have "unat (of_nat (i + 1) :: byte) = i + 1"
    by (rule of_nat_inverse [OF refl]) (use assms(1) in simp)
  moreover have "unat (of_nat (j + 1) :: byte) = j + 1"
    by (rule of_nat_inverse [OF refl]) (use assms(2) in simp)
  ultimately show ?thesis using assms(3) by (metis add_right_cancel)
qed

lemma nThresholds_bound: "unat (nThresholds s) \<le> 255"
  using unsigned_less [of "nThresholds s", where 'a = nat] by simp

lemma event_in_events:
  assumes "i < unat (nThresholds s)"
  shows "(of_nat (i + 1) :: byte) \<in> set (map (\<lambda>j. of_nat (j + 1)) (filter (fires s) [0..<unat (nThresholds s)]))
         \<longleftrightarrow> fires s i"
proof
  assume "(of_nat (i + 1) :: byte) \<in> set (map (\<lambda>j. of_nat (j + 1)) (filter (fires s) [0..<unat (nThresholds s)]))"
  then obtain j where j: "j < unat (nThresholds s)" "fires s j" "(of_nat (i + 1) :: byte) = of_nat (j + 1)"
    by auto
  from assms j(1) nThresholds_bound [of s] have "i < 255" "j < 255" by simp_all
  from event_byte_inj [OF this j(3)] j(2) show "fires s i" by simp
next
  assume "fires s i"
  with assms show "(of_nat (i + 1) :: byte) \<in> set (map (\<lambda>j. of_nat (j + 1)) (filter (fires s) [0..<unat (nThresholds s)]))"
    by auto
qed


lemma thresholdView_refl: "thresholdView s s"
  by (simp add: thresholdView_def)

lemma thresholdView_trans: "thresholdView s t \<Longrightarrow> thresholdView t u \<Longrightarrow> thresholdView s u"
  by (simp add: thresholdView_def)

lemma fires_view: "thresholdView s t \<Longrightarrow> fires t = fires s"
  by (simp add: thresholdView_def fires_def fun_eq_iff batch_def)

lemma swapBuffers_Inr:
  "swapBuffers s = Inr s1 \<Longrightarrow>
   s1 = s\<lparr>positionBufferFlag := False,
          nPositions := iPositionBuffer s (unat (currentPositionBuffer s)),
          thisPositionBuffer := currentPositionBuffer s,
          currentPositionBuffer := 1 - currentPositionBuffer s,
          iPositionBuffer := (iPositionBuffer s)(unat (1 - currentPositionBuffer s) := 0)\<rparr>"
  by (auto simp: swapBuffers_def Let_def split: if_splits)

lemma usbStreamStage_view: "usbStreamStage s = Inr s' \<Longrightarrow> thresholdView s s'"
  by (auto simp: usbStreamStage_def bind_res_def writeByteArray_usb thresholdView_def Let_def
      split: if_splits sum.splits)

lemma writeRecords_view: "thresholdView s (writeRecords xs s)"
proof (induction xs arbitrary: s)
  case Nil
  show ?case by (simp add: thresholdView_refl)
next
  case (Cons x xs)
  let ?s1 = "(fileWrite (logRecord x) s)\<lparr>dataPos := dataPos s + 1\<rparr>"
  have "thresholdView s ?s1" by (simp add: thresholdView_def fileWrite_def)
  from thresholdView_trans [OF this Cons.IH [of ?s1]] show ?case by simp
qed

lemma logStage_view: "thresholdView s (logStage s)"
  by (simp add: logStage_def logCurrentPosition_def writeRecords_view thresholdView_refl)

lemma moduleStreamStage_view: "thresholdView s (moduleStreamStage s)"
  by (simp add: moduleStreamStage_def writeByteArray_os thresholdView_def)

lemma drainStage_detector:
  assumes "positionBufferFlag s" "drainStage s = Inr s'"
  shows "\<exists>s1 s4. swapBuffers s = Inr s1 \<and> thresholdView s1 s4 \<and> s' = thresholdStage s4"
proof -
  from assms obtain s1 s2 where s1: "swapBuffers s = Inr s1" and s2: "usbStreamStage s1 = Inr s2"
    and s': "s' = thresholdStage (moduleStreamStage (logStage s2))"
    by (auto simp: drainStage_def bind_res_def split: sum.splits)
  have "thresholdView s1 (moduleStreamStage (logStage s2))"
    using usbStreamStage_view [OF s2] logStage_view [of s2] moduleStreamStage_view [of "logStage s2"]
    by (blast intro: thresholdView_trans)
  with s1 s' show ?thesis by blast
qed

lemma fires_after_swap:
  assumes "swapBuffers s = Inr s1"
  shows "fires s1 i \<longleftrightarrow>
     thresholdActive s i \<and>
     (\<exists>j < unat (iPositionBuffer s (unat (currentPositionBuffer s))).
        crossedBy (thresholds s i) (positionBuffer s j (unat (currentPositionBuffer s))))"
  unfolding swapBuffers_Inr [OF assms] fires_def batch_def by (auto simp: image_iff)

lemma thresholdLoop_numeral:
  "thresholdLoop i (numeral k) s = thresholdLoop (Suc i) (pred_numeral k) (checkThreshold i s)"
  by (simp add: numeral_eq_Suc)

lemma upt_numeral:
  "[0..<numeral k] = 0 # [Suc 0..<numeral k]"
  "[Suc i..<numeral k] = (if Suc i < numeral k then Suc i # [Suc (Suc i)..<numeral k] else [])"
  by (simp_all add: upt_rec [of 0] upt_rec [of "Suc i"])

text \<open>
  Claim C5. For every drained batch (the samples in the current half of the double buffer
  when the drain starts), the bytes that the drain sends to the state machine are such that
  an enabled threshold with a negative value has its event byte (its index plus one) among
  them exactly when some sample is at or below the value, an enabled threshold with a
  non-negative value exactly when some sample is at or above it; and nothing is sent
  when event transmission is off or the wrap count is not zero.
\<close>

theorem threshold_events_of_drain:
  assumes "positionBufferFlag s" and "drainStage s = Inr s'"
  shows "\<exists>evs. smOut s' = smOut s @ evs \<and>
     (\<not> sendEvents s \<or> nWraps s \<noteq> 0 \<longrightarrow> evs = []) \<and>
     (sendEvents s \<and> nWraps s = 0 \<longrightarrow>
        (\<forall>i. i < unat (nThresholds s) \<and> thresholdActive s i \<longrightarrow>
           (sint (thresholds s i) < 0 \<longrightarrow>
              (of_nat (i + 1) \<in> set evs \<longleftrightarrow>
                 (\<exists>j < unat (iPositionBuffer s (unat (currentPositionBuffer s))).
                    sint (positionBuffer s j (unat (currentPositionBuffer s))) \<le> sint (thresholds s i)))) \<and>
           (0 \<le> sint (thresholds s i) \<longrightarrow>
              (of_nat (i + 1) \<in> set evs \<longleftrightarrow>
                 (\<exists>j < unat (iPositionBuffer s (unat (currentPositionBuffer s))).
                    sint (thresholds s i) \<le> sint (positionBuffer s j (unat (currentPositionBuffer s))))))))"
proof -
  from drainStage_detector [OF assms] obtain s1 s4 where sw: "swapBuffers s = Inr s1"
    and v: "thresholdView s1 s4" and s': "s' = thresholdStage s4" by blast
  note e1 = swapBuffers_Inr [OF sw]
  have f: "fires s4 = fires s1" by (rule fires_view [OF v])
  have k: "sendEvents s4 = sendEvents s" "nWraps s4 = nWraps s" "nThresholds s4 = nThresholds s"
    "smOut s4 = smOut s" "nThresholds s1 = nThresholds s"
    using v by (simp_all add: thresholdView_def e1)
  let ?evs = "if sendEvents s \<and> nWraps s = 0
              then map (\<lambda>j. of_nat (j + 1) :: byte) (filter (fires s1) [0..<unat (nThresholds s1)]) else []"
  have out: "smOut s' = smOut s @ ?evs"
    unfolding s' thresholdStage_eq using k f by simp
  have ev: "(of_nat (i + 1) :: byte) \<in> set ?evs \<longleftrightarrow> fires s1 i"
    if "sendEvents s \<and> nWraps s = 0" "i < unat (nThresholds s)" for i
    using that event_in_events [of i s1] k by simp
  show ?thesis
  proof (intro exI [of _ ?evs] conjI impI allI)
    show "smOut s' = smOut s @ ?evs" by (rule out)
    show "?evs = []" if "\<not> sendEvents s \<or> nWraps s \<noteq> 0" using that by auto
  next
    fix i
    assume a: "sendEvents s \<and> nWraps s = 0" and b: "i < unat (nThresholds s) \<and> thresholdActive s i"
      and c: "sint (thresholds s i) < 0"
    from b have bi: "i < unat (nThresholds s)" by simp
    have "(of_nat (i + 1) \<in> set ?evs) \<longleftrightarrow> fires s1 i" by (rule ev [OF a bi])
    also have "\<dots> \<longleftrightarrow> thresholdActive s i \<and>
        (\<exists>j < unat (iPositionBuffer s (unat (currentPositionBuffer s))).
           crossedBy (thresholds s i) (positionBuffer s j (unat (currentPositionBuffer s))))"
      by (rule fires_after_swap [OF sw])
    also have "\<dots> \<longleftrightarrow> (\<exists>j < unat (iPositionBuffer s (unat (currentPositionBuffer s))).
                    sint (positionBuffer s j (unat (currentPositionBuffer s))) \<le> sint (thresholds s i))"
      using b c by (simp add: crossedBy_def)
    finally show "(of_nat (i + 1) \<in> set ?evs) \<longleftrightarrow>
                 (\<exists>j < unat (iPositionBuffer s (unat (currentPositionBuffer s))).
                    sint (positionBuffer s j (unat (currentPositionBuffer s))) \<le> sint (thresholds s i))" .
  next
    fix i
    assume a: "sendEvents s \<and> nWraps s = 0" and b: "i < unat (nThresholds s) \<and> thresholdActive s i"
      and c: "0 \<le> sint (thresholds s i)"
    then have c': "\<not> sint (thresholds s i) < 0" by simp
    from b have bi: "i < unat (nThresholds s)" by simp
    have "(of_nat (i + 1) \<in> set ?evs) \<longleftrightarrow> fires s1 i" by (rule ev [OF a bi])
    also have "\<dots> \<longleftrightarrow> thresholdActive s i \<and>
        (\<exists>j < unat (iPositionBuffer s (unat (currentPositionBuffer s))).
           crossedBy (thresholds s i) (positionBuffer s j (unat (currentPositionBuffer s))))"
      by (rule fires_after_swap [OF sw])
    also have "\<dots> \<longleftrightarrow> (\<exists>j < unat (iPositionBuffer s (unat (currentPositionBuffer s))).
                    sint (thresholds s i) \<le> sint (positionBuffer s j (unat (currentPositionBuffer s))))"
      using b c' by (simp add: crossedBy_def)
    finally show "(of_nat (i + 1) \<in> set ?evs) \<longleftrightarrow>
                 (\<exists>j < unat (iPositionBuffer s (unat (currentPositionBuffer s))).
                    sint (thresholds s i) \<le> sint (positionBuffer s j (unat (currentPositionBuffer s))))" .
  qed
qed

theorem threshold_events_of_drain_witness:
  "\<exists>s'. drainStage (initState\<lparr>thresholds := (\<lambda>i. if i = 0 then - 100 else if i = 1 then 300 else 0),
                                  thresholdActive := (\<lambda>i. i < 2), nThresholds := 2,
                                  positionBuffer := (\<lambda>j c. if j = 0 then 50 else if j = 1 then - 150 else 350),
                                  iPositionBuffer := (\<lambda>c. if c = 0 then 3 else 0),
                                  positionBufferFlag := True\<rparr>) = Inr s' \<and>
        smOut s' = [1, 2] \<and> \<not> thresholdActive s' 0 \<and> \<not> thresholdActive s' 1 \<and>
        (\<exists>j<(3::nat). sint ((if j = 0 then 50 else if j = 1 then - 150 else 350) :: int16) \<le> - 100)"
proof -
  let ?S = "initState\<lparr>thresholds := (\<lambda>i. if i = 0 then - 100 else if i = 1 then 300 else 0),
                                  thresholdActive := (\<lambda>i. i < 2), nThresholds := 2,
                                  positionBuffer := (\<lambda>j c. if j = 0 then 50 else if j = 1 then - 150 else 350),
                                  iPositionBuffer := (\<lambda>c. if c = 0 then 3 else 0),
                                  positionBufferFlag := True\<rparr>"
  let ?cross = "\<lambda>i. \<exists>j < unat (iPositionBuffer ?S (unat (currentPositionBuffer ?S))).
                    sint (positionBuffer ?S j (unat (currentPositionBuffer ?S))) \<le> sint (thresholds ?S i)"
  let ?cross' = "\<lambda>i. \<exists>j < unat (iPositionBuffer ?S (unat (currentPositionBuffer ?S))).
                    sint (thresholds ?S i) \<le> sint (positionBuffer ?S j (unat (currentPositionBuffer ?S)))"
  have ex: "\<exists>s'. drainStage ?S = Inr s' \<and> smOut s' = [1, 2] \<and>
               \<not> thresholdActive s' 0 \<and> \<not> thresholdActive s' 1"
    by (simp add: initState_def drainStage_def swapBuffers_def usbStreamStage_def logStage_def
        moduleStreamStage_def thresholdStage_def checkThreshold_def batch_def bind_res_def Let_def
        writeByteArray_sm thresholdLoop_numeral upt_numeral)
  then obtain s' where d: "drainStage ?S = Inr s'" and o: "smOut s' = [1, 2]"
    and a: "\<not> thresholdActive s' 0" "\<not> thresholdActive s' 1" by blast
  have h1: "positionBufferFlag ?S" by simp
  have h2: "sendEvents ?S \<and> nWraps ?S = 0" by (simp add: initState_def)
  have h3: "0 < unat (nThresholds ?S) \<and> thresholdActive ?S 0" by simp
  have h4: "sint (thresholds ?S 0) < 0" by simp
  have h5: "smOut ?S = []" by (simp add: initState_def)
  from threshold_events_of_drain [OF h1 d]
  obtain evs where e1: "smOut s' = smOut ?S @ evs"
    and e3: "sendEvents ?S \<and> nWraps ?S = 0 \<longrightarrow>
        (\<forall>i. i < unat (nThresholds ?S) \<and> thresholdActive ?S i \<longrightarrow>
           (sint (thresholds ?S i) < 0 \<longrightarrow> (of_nat (i + 1) \<in> set evs \<longleftrightarrow> ?cross i)) \<and>
           (0 \<le> sint (thresholds ?S i) \<longrightarrow> (of_nat (i + 1) \<in> set evs \<longleftrightarrow> ?cross' i)))"
    by (elim exE conjE)
  from e1 h5 o have evs: "evs = [1, 2]" by simp
  from e3 h2 have "0 < unat (nThresholds ?S) \<and> thresholdActive ?S 0 \<longrightarrow>
           (sint (thresholds ?S 0) < 0 \<longrightarrow> (of_nat (0 + 1) \<in> set evs \<longleftrightarrow> ?cross 0))"
    by blast
  with h3 h4 have "of_nat (0 + 1) \<in> set evs \<longleftrightarrow> ?cross 0" by blast
  moreover have "(of_nat (0 + 1) :: byte) \<in> set evs" unfolding evs by simp
  ultimately have "?cross 0" by blast
  then have "\<exists>j<(3::nat). sint ((if j = 0 then 50 else if j = 1 then - 150 else 350) :: int16) \<le> - 100"
    by (simp add: initState_def)
  with d o a show ?thesis by blast
qed

end
